theory Spec2Isabelle
  imports Main "HOL-Library.Word" "HOL-Library.Sublist"
begin

section \<open>Text and bytes\<close>

text \<open>
  A Python \<^verbatim>\<open>str\<close> is a sequence of Unicode code points; a \<^verbatim>\<open>bytes\<close> object is a
  sequence of octets. Literals of the script are ASCII and are written as HOL strings,
  embedded by \<open>str\<close>.
\<close>

type_synonym uchar = nat
type_synonym ustr = "uchar list"
type_synonym byte = "8 word"

definition str :: "string \<Rightarrow> ustr" where
  "str s = map of_char s"

section \<open>The regular expressions of \<^verbatim>\<open>CREF_REGEXES\<close>\<close>

text \<open>
  The class \<^verbatim>\<open>\s\<close> of a \<^verbatim>\<open>str\<close> pattern: the Unicode whitespace code points.
\<close>

definition is_space :: "uchar \<Rightarrow> bool" where
  "is_space c \<longleftrightarrow>
     (9 \<le> c \<and> c \<le> 13) \<or> (28 \<le> c \<and> c \<le> 32) \<or> c = 133 \<or> c = 160 \<or> c = 5760 \<or>
     (8192 \<le> c \<and> c \<le> 8202) \<or> c = 8232 \<or> c = 8233 \<or> c = 8239 \<or> c = 8287 \<or> c = 12288"

text \<open>
  One-character matchers: a literal, \<^verbatim>\<open>\s\<close>, and \<^verbatim>\<open>.\<close> (no DOTALL flag is given, so
  the dot matches everything except the line feed).
\<close>

datatype cls = Lit uchar | Space | Dot

fun cls_match :: "cls \<Rightarrow> uchar \<Rightarrow> bool" where
  "cls_match (Lit a) c = (c = a)"
| "cls_match Space c = is_space c"
| "cls_match Dot c = (c \<noteq> 10)"

text \<open>
  A pattern is a sequence of items: one character of a class, the lazy repetitions
  \<^verbatim>\<open>x*?\<close> and \<^verbatim>\<open>x+?\<close> of a class, and the two marks that open and close group 1.
\<close>

datatype item = One cls | LazyStar cls | LazyPlus cls | Open | Close

text \<open>
  A match object: group 1 (\<open>None\<close> when the group did not take part) and the text
  that follows the end of the match.
\<close>

datatype match_obj = Match (group1: "ustr option") (m_end: ustr)

text \<open>
  Marks are kept as the suffix of the subject that starts at the marked position;
  \<open>span\<close> is the slice between the two marks.
\<close>

fun span :: "ustr option \<Rightarrow> ustr option \<Rightarrow> ustr option" where
  "span (Some a) (Some b) = Some (take (length a - length b) a)"
| "span _ _ = None"

text \<open>
  The backtracking matcher, anchored at the head of the subject. A lazy repetition
  first tries the rest of the pattern and consumes one more character only when
  that fails; the first success is the match.
\<close>

fun re_match :: "item list \<Rightarrow> ustr \<Rightarrow> ustr option \<Rightarrow> ustr option \<Rightarrow> match_obj option" where
  "re_match [] s m0 m1 = Some (Match (span m0 m1) s)"
| "re_match (One c # r) [] m0 m1 = None"
| "re_match (One c # r) (x # xs) m0 m1 =
     (if cls_match c x then re_match r xs m0 m1 else None)"
| "re_match (LazyStar c # r) s m0 m1 =
     (case re_match r s m0 m1 of
        Some mo \<Rightarrow> Some mo
      | None \<Rightarrow>
          (case s of
             [] \<Rightarrow> None
           | x # xs \<Rightarrow> if cls_match c x then re_match (LazyStar c # r) xs m0 m1 else None))"
| "re_match (LazyPlus c # r) [] m0 m1 = None"
| "re_match (LazyPlus c # r) (x # xs) m0 m1 =
     (if cls_match c x then re_match (LazyStar c # r) xs m0 m1 else None)"
| "re_match (Open # r) s m0 m1 = re_match r s (Some s) m1"
| "re_match (Close # r) s m0 m1 = re_match r s m0 (Some s)"

text \<open>
  \<^verbatim>\<open>convert_to_match\<close>: the replacement is group 1 of the match.
\<close>

definition convert_to_match :: "match_obj \<Rightarrow> ustr option" where
  "convert_to_match match_obj = group1 match_obj"

text \<open>
  \<^verbatim>\<open>re.sub(regex, repl, text)\<close> with a callable \<open>repl\<close>: scan from the left; where the
  pattern matches, emit the replacement and go on after the match; elsewhere copy one
  character. A replacement of \<open>None\<close> emits nothing. Both patterns of this script
  start with a literal, so a match is never empty; the branch for an empty match
  emits the replacement and advances by one character.
\<close>

definition emit :: "ustr option \<Rightarrow> ustr" where
  "emit g = (case g of None \<Rightarrow> [] | Some t \<Rightarrow> t)"

function re_sub :: "item list \<Rightarrow> (match_obj \<Rightarrow> ustr option) \<Rightarrow> ustr \<Rightarrow> ustr" where
  "re_sub r repl [] =
     (case re_match r [] None None of None \<Rightarrow> [] | Some mo \<Rightarrow> emit (repl mo))"
| "re_sub r repl (c # cs) =
     (case re_match r (c # cs) None None of
        None \<Rightarrow> c # re_sub r repl cs
      | Some mo \<Rightarrow>
          if length (m_end mo) < length (c # cs)
          then emit (repl mo) @ re_sub r repl (m_end mo)
          else emit (repl mo) @ c # re_sub r repl cs)"
  by pat_completeness auto
termination
  by (relation "measure (\<lambda>(r, repl, s). length s)") auto

text \<open>
  \<^verbatim>\<open>CREF_REGEXES\<close>, item by item as the two pattern strings are written.
\<close>

definition lits :: "string \<Rightarrow> item list" where
  "lits s = map (\<lambda>c. One (Lit (of_char c))) s"

definition CREF_REGEXES :: "item list list" where
  "CREF_REGEXES =
     [lits ''<'' @ [LazyStar Space] @ lits ''see'' @ [LazyStar Space] @ lits ''cref'' @
      [LazyStar Space] @ lits ''='' @ [LazyStar Space] @ lits ''\"'' @
      [Open] @ lits ''SadRogue'' @ lits ''.'' @ [LazyPlus Dot] @ [Close] @
      lits ''\"'' @ [LazyStar Space] @ lits ''/'' @ [LazyStar Space] @ lits ''>'',
      lits ''<'' @ [LazyStar Space] @ lits ''see'' @ [LazyStar Space] @ lits ''cref'' @
      [LazyStar Space] @ lits ''='' @ [LazyStar Space] @ lits ''\"'' @
      [Open] @ lits ''Troschuetz'' @ lits ''.'' @ [LazyPlus Dot] @ [Close] @
      lits ''\"'' @ [LazyStar Space] @ lits ''/'' @ [LazyStar Space] @ lits ''>'']"

text \<open>
  The substitution loop of \<^verbatim>\<open>main\<close>: each pattern is a full pass over the buffer that
  the previous pass produced.
\<close>

definition rewrite :: "ustr \<Rightarrow> ustr" where
  "rewrite file_data = foldl (\<lambda>d regex. re_sub regex convert_to_match d) file_data CREF_REGEXES"

section \<open>Files, console and \<^verbatim>\<open>main\<close>\<close>

text \<open>
  \<^verbatim>\<open>bytes.decode("UTF-8")\<close> and \<^verbatim>\<open>str.encode("UTF-8")\<close>, both strict: the decoder
  refuses stray and missing continuation bytes, overlong forms, surrogates and values
  above U+10FFFF (\<open>None\<close> stands for \<^verbatim>\<open>UnicodeDecodeError\<close>); the encoder refuses
  surrogates (\<^verbatim>\<open>UnicodeEncodeError\<close>).
\<close>

definition cont :: "byte \<Rightarrow> bool" where
  "cont b \<longleftrightarrow> 0x80 \<le> b \<and> b \<le> 0xBF"

text \<open>
  The range of the second byte after the lead byte \<open>b0\<close>: narrower after E0 and F0
  (no overlong forms), after ED (no surrogates) and after F4 (nothing above U+10FFFF).
\<close>

definition lo2 :: "byte \<Rightarrow> byte" where
  "lo2 b0 = (if b0 = 0xE0 then 0xA0 else if b0 = 0xF0 then 0x90 else 0x80)"

definition hi2 :: "byte \<Rightarrow> byte" where
  "hi2 b0 = (if b0 = 0xED then 0x9F else if b0 = 0xF4 then 0x8F else 0xBF)"

definition low6 :: "byte \<Rightarrow> nat" where
  "low6 b = unat b mod 64"

fun utf8_decode :: "byte list \<Rightarrow> ustr option" where
  "utf8_decode [] = Some []"
| "utf8_decode (b0 # bs) =
     (if b0 < 0x80 then map_option ((#) (unat b0)) (utf8_decode bs)
      else if 0xC2 \<le> b0 \<and> b0 \<le> 0xDF then
        (case bs of
           b1 # bs1 \<Rightarrow>
             if cont b1
             then map_option ((#) ((unat b0 - 0xC0) * 64 + low6 b1)) (utf8_decode bs1)
             else None
         | _ \<Rightarrow> None)
      else if 0xE0 \<le> b0 \<and> b0 \<le> 0xEF then
        (case bs of
           b1 # b2 # bs2 \<Rightarrow>
             if lo2 b0 \<le> b1 \<and> b1 \<le> hi2 b0 \<and> cont b2
             then map_option ((#) (((unat b0 - 0xE0) * 64 + low6 b1) * 64 + low6 b2))
                    (utf8_decode bs2)
             else None
         | _ \<Rightarrow> None)
      else if 0xF0 \<le> b0 \<and> b0 \<le> 0xF4 then
        (case bs of
           b1 # b2 # b3 # bs3 \<Rightarrow>
             if lo2 b0 \<le> b1 \<and> b1 \<le> hi2 b0 \<and> cont b2 \<and> cont b3
             then map_option
                    ((#) ((((unat b0 - 0xF0) * 64 + low6 b1) * 64 + low6 b2) * 64 + low6 b3))
                    (utf8_decode bs3)
             else None
         | _ \<Rightarrow> None)
      else None)"

definition utf8_encode_char :: "uchar \<Rightarrow> byte list option" where
  "utf8_encode_char c =
     (if c < 0x80 then Some [of_nat c]
      else if c < 0x800 then Some [of_nat (0xC0 + c div 64), of_nat (0x80 + c mod 64)]
      else if c < 0x10000 then
        (if 0xD800 \<le> c \<and> c \<le> 0xDFFF then None
         else Some [of_nat (0xE0 + c div 4096), of_nat (0x80 + c div 64 mod 64),
                    of_nat (0x80 + c mod 64)])
      else if c < 0x110000 then
        Some [of_nat (0xF0 + c div 262144), of_nat (0x80 + c div 4096 mod 64),
              of_nat (0x80 + c div 64 mod 64), of_nat (0x80 + c mod 64)]
      else None)"

fun utf8_encode :: "ustr \<Rightarrow> byte list option" where
  "utf8_encode [] = Some []"
| "utf8_encode (c # cs) =
     (case utf8_encode_char c of
        None \<Rightarrow> None
      | Some bs \<Rightarrow> map_option ((@) bs) (utf8_encode cs))"

text \<open>
  The world the script runs in. A path names a file through \<open>inode_of\<close>, which gives the
  number of the file the path resolves to, symbolic links followed, so that several
  paths, hard links or symbolic links, can name one file; \<open>inodes\<close> holds the files by
  number, with their permissions. A name whose number is beyond the table has no file
  behind it, as a link without a target. Then: what \<^verbatim>\<open>os.walk\<close> yields for a top directory
  (triples of directory path, subdirectory names and file names); the lines waiting on
  standard input; what has been written to standard output; and the log of the paths
  given to \<^verbatim>\<open>open\<close>. \<open>files\<close> is the file seen through a path.
\<close>

record entry =
  content :: "byte list"
  readable :: bool
  writable :: bool

record world =
  inode_of :: "ustr \<rightharpoonup> nat"
  inodes :: "entry list"
  walk :: "ustr \<Rightarrow> (ustr \<times> ustr list \<times> ustr list) list"
  stdin :: "ustr list"
  stdout :: ustr
  opened :: "ustr list"

definition resolve :: "world \<Rightarrow> ustr \<Rightarrow> nat option" where
  "resolve w p =
     (case inode_of w p of
        None \<Rightarrow> None
      | Some i \<Rightarrow> if i < length (inodes w) then Some i else None)"

definition files :: "world \<Rightarrow> ustr \<Rightarrow> entry option" where
  "files w p = map_option (\<lambda>i. inodes w ! i) (resolve w p)"

datatype error =
  EOFError | FileNotFoundError ustr | PermissionError ustr
  | UnicodeDecodeError | UnicodeEncodeError

text \<open>
  \<^verbatim>\<open>input(prompt)\<close> writes the prompt and returns the next line without its newline, or
  raises at end of input; \<^verbatim>\<open>print()\<close> writes a newline.
\<close>

definition py_input :: "ustr \<Rightarrow> world \<Rightarrow> (error + ustr) \<times> world" where
  "py_input prompt w =
     (case stdin w of
        [] \<Rightarrow> (Inl EOFError, w\<lparr>stdout := stdout w @ prompt\<rparr>)
      | l # ls \<Rightarrow> (Inr l, w\<lparr>stdout := stdout w @ prompt, stdin := ls\<rparr>))"

definition py_print :: "world \<Rightarrow> world" where
  "py_print w = w\<lparr>stdout := stdout w @ [10]\<rparr>"

text \<open>
  \<^verbatim>\<open>open(path, 'rb')\<close> followed by \<^verbatim>\<open>read()\<close>, and \<^verbatim>\<open>open(path, 'wb')\<close>, which truncates
  the file as soon as it is opened, or creates it when the path has no file behind it,
  followed by \<^verbatim>\<open>write(data)\<close>. All three act on the file the path resolves to.
\<close>

definition open_rb :: "ustr \<Rightarrow> world \<Rightarrow> (error + byte list) \<times> world" where
  "open_rb p w =
     (let w1 = w\<lparr>opened := opened w @ [p]\<rparr> in
      case files w p of
        None \<Rightarrow> (Inl (FileNotFoundError p), w1)
      | Some f \<Rightarrow> if readable f then (Inr (content f), w1) else (Inl (PermissionError p), w1))"

definition open_wb :: "ustr \<Rightarrow> world \<Rightarrow> (error + unit) \<times> world" where
  "open_wb p w =
     (let w1 = w\<lparr>opened := opened w @ [p]\<rparr> in
      case resolve w p of
        None \<Rightarrow>
          (Inr (), w1\<lparr>inode_of := (inode_of w)(p \<mapsto> length (inodes w)),
                       inodes := inodes w @ [\<lparr>content = [], readable = True, writable = True\<rparr>]\<rparr>)
      | Some i \<Rightarrow>
          if writable (inodes w ! i)
          then (Inr (), w1\<lparr>inodes := (inodes w)[i := (inodes w ! i)\<lparr>content := []\<rparr>]\<rparr>)
          else (Inl (PermissionError p), w1))"

definition py_write :: "ustr \<Rightarrow> byte list \<Rightarrow> world \<Rightarrow> world" where
  "py_write p bs w =
     (case resolve w p of
        None \<Rightarrow> w
      | Some i \<Rightarrow>
          w\<lparr>inodes := (inodes w)[i := (inodes w ! i)\<lparr>content := content (inodes w ! i) @ bs\<rparr>]\<rparr>)"

text \<open>
  \<^verbatim>\<open>str.endswith\<close>, and \<^verbatim>\<open>os.path.join\<close> of two components with the separator \<^verbatim>\<open>/\<close>.
\<close>

definition endswith :: "ustr \<Rightarrow> ustr \<Rightarrow> bool" where
  "endswith s sfx \<longleftrightarrow> length sfx \<le> length s \<and> drop (length s - length sfx) s = sfx"

definition path_join :: "ustr \<Rightarrow> ustr \<Rightarrow> ustr" where
  "path_join a b =
     (if b \<noteq> [] \<and> hd b = 47 then b
      else if a = [] \<or> last a = 47 then a @ b
      else a @ 47 # b)"

text \<open>
  \<^verbatim>\<open>CS_PATH\<close>, from the directory \<^verbatim>\<open>FILE_PATH\<close> the script is in.
\<close>

definition CS_PATH :: "ustr \<Rightarrow> ustr" where
  "CS_PATH FILE_PATH = path_join (path_join FILE_PATH (str ''..'')) (str ''GoRogue'')"

text \<open>
  \<^verbatim>\<open>confirm_continue_prompt\<close>.
\<close>

definition PROMPT :: ustr where
  "PROMPT =
     str ''WARNING: This script intends for you to use git commands to reset .cs files '' @
     str ''after docs generation is complete, in order to undo the script'' @ [39] @
     str ''s changes.  '' @
     str ''Ensure ALL changes to .CS files are committed and pushed first!  '' @
     str ''Continue? (Y/N): ''"

definition confirm_continue_prompt :: "world \<Rightarrow> (error + bool) \<times> world" where
  "confirm_continue_prompt w =
     (case py_input PROMPT w of
        (Inl e, w1) \<Rightarrow> (Inl e, w1)
      | (Inr resp, w1) \<Rightarrow> (Inr (resp \<in> set [str ''y'', str ''Y'']), py_print w1))"

text \<open>
  The body of the inner loop of \<^verbatim>\<open>main\<close> for one file path: the extension test, the
  read and decode, the substitutions, the encode and write.
\<close>

definition process :: "ustr \<Rightarrow> world \<Rightarrow> (error + unit) \<times> world" where
  "process file_path w =
     (if endswith file_path (str ''.cs'') then
        (case open_rb file_path w of
           (Inl e, w1) \<Rightarrow> (Inl e, w1)
         | (Inr data, w1) \<Rightarrow>
             (case utf8_decode data of
                None \<Rightarrow> (Inl UnicodeDecodeError, w1)
              | Some file_data \<Rightarrow>
                  (case open_wb file_path w1 of
                     (Inl e, w2) \<Rightarrow> (Inl e, w2)
                   | (Inr u, w2) \<Rightarrow>
                       (case utf8_encode (rewrite file_data) of
                          None \<Rightarrow> (Inl UnicodeEncodeError, w2)
                        | Some bs \<Rightarrow> (Inr (), py_write file_path bs w2)))))
      else (Inr (), w))"

text \<open>
  The two loops: over the file names of one directory, and over the triples of the
  walk. An exception ends both.
\<close>

fun main_files :: "ustr \<Rightarrow> ustr list \<Rightarrow> world \<Rightarrow> (error + unit) \<times> world" where
  "main_files path [] w = (Inr (), w)"
| "main_files path (name # names) w =
     (case process (path_join path name) w of
        (Inl e, w1) \<Rightarrow> (Inl e, w1)
      | (Inr u, w1) \<Rightarrow> main_files path names w1)"

fun main_walk :: "(ustr \<times> ustr list \<times> ustr list) list \<Rightarrow> world \<Rightarrow> (error + unit) \<times> world" where
  "main_walk [] w = (Inr (), w)"
| "main_walk ((path, dirs, names) # rest) w =
     (case main_files path names w of
        (Inl e, w1) \<Rightarrow> (Inl e, w1)
      | (Inr u, w1) \<Rightarrow> main_walk rest w1)"

definition main :: "ustr \<Rightarrow> world \<Rightarrow> (error + unit) \<times> world" where
  "main FILE_PATH w =
     (case confirm_continue_prompt w of
        (Inl e, w1) \<Rightarrow> (Inl e, w1)
      | (Inr ok, w1) \<Rightarrow>
          if \<not> ok then (Inr (), w1)
          else main_walk (walk w1 (CS_PATH FILE_PATH)) w1)"

section \<open>Notions used to state the properties\<close>

text \<open>
  ASCII file contents, written as HOL strings.
\<close>

definition bytes :: "string \<Rightarrow> byte list" where
  "bytes s = map of_char s"

text \<open>
  The language of a pattern, independent of the order in which the matcher tries
  its alternatives: \<open>accepts r s\<close> holds when the pattern can consume exactly \<open>s\<close>.
  A text contains a match when one of its substrings is accepted.
\<close>

fun accepts :: "item list \<Rightarrow> ustr \<Rightarrow> bool" where
  "accepts [] s = (s = [])"
| "accepts (One c # r) [] = False"
| "accepts (One c # r) (x # xs) = (cls_match c x \<and> accepts r xs)"
| "accepts (LazyStar c # r) s =
     (accepts r s \<or>
      (case s of [] \<Rightarrow> False | x # xs \<Rightarrow> cls_match c x \<and> accepts (LazyStar c # r) xs))"
| "accepts (LazyPlus c # r) [] = False"
| "accepts (LazyPlus c # r) (x # xs) = (cls_match c x \<and> accepts (LazyStar c # r) xs)"
| "accepts (Open # r) s = accepts r s"
| "accepts (Close # r) s = accepts r s"

definition contains_match :: "item list \<Rightarrow> ustr \<Rightarrow> bool" where
  "contains_match r t = list_ex (\<lambda>u. list_ex (accepts r) (prefixes u)) (suffixes t)"

text \<open>
  A self-closing tag \<^verbatim>\<open><see cref="q"/>\<close> with the whitespace runs \<open>w1\<close> (after \<^verbatim>\<open><\<close>),
  \<open>w2\<close> (between \<^verbatim>\<open>see\<close> and \<^verbatim>\<open>cref\<close>), \<open>w3\<close> and \<open>w4\<close> (around \<^verbatim>\<open>=\<close>), \<open>w5\<close> and \<open>w6\<close>
  (around \<^verbatim>\<open>/\<close>), and what makes the runs whitespace and the rest of a qualified name
  well formed: not empty, and free of quotes, line feeds and \<^verbatim>\<open><\<close>.
\<close>

definition see_tag :: "ustr \<Rightarrow> ustr \<Rightarrow> ustr \<Rightarrow> ustr \<Rightarrow> ustr \<Rightarrow> ustr \<Rightarrow> ustr \<Rightarrow> ustr" where
  "see_tag w1 w2 w3 w4 q w5 w6 =
     str ''<'' @ w1 @ str ''see'' @ w2 @ str ''cref'' @ w3 @ str ''='' @ w4 @
     str ''\"'' @ q @ str ''\"'' @ w5 @ str ''/'' @ w6 @ str ''>''"

definition spaces :: "ustr \<Rightarrow> bool" where
  "spaces ws = list_all is_space ws"

definition name_ok :: "ustr \<Rightarrow> bool" where
  "name_ok n \<longleftrightarrow> n \<noteq> [] \<and> list_all (\<lambda>c. c \<noteq> 34 \<and> c \<noteq> 10 \<and> c \<noteq> 60) n"

text \<open>
  The end-to-end scenarios: the script lies in \<^verbatim>\<open>/repo/GoRogue.Docs\<close>, the walk of
  \<^verbatim>\<open>CS_PATH\<close> finds one file, of the given name and content, and the user gives the
  given answer to the prompt.
\<close>

definition script_dir :: ustr where
  "script_dir = str ''/repo/GoRogue.Docs''"

definition doc_path :: "string \<Rightarrow> ustr" where
  "doc_path nm = str ''/repo/GoRogue.Docs/../GoRogue/'' @ str nm"

definition scenario :: "string \<Rightarrow> string \<Rightarrow> string \<Rightarrow> world" where
  "scenario nm s resp =
     \<lparr>inode_of = [doc_path nm \<mapsto> 0],
      inodes = [\<lparr>content = bytes s, readable = True, writable = True\<rparr>],
      walk = (\<lambda>top. if top = str ''/repo/GoRogue.Docs/../GoRogue''
                     then [(top, [], [str nm])] else []),
      stdin = [str resp], stdout = [], opened = []\<rparr>"

text \<open>
  The paths a run gives to the extension test: every file name of every triple of the
  walk, joined to its directory. Two paths name the same file when they resolve to the
  same number. A path is unaliased when no path of the walk that ends with \<^verbatim>\<open>.cs\<close> names
  the same file.
\<close>

definition paths_of :: "(ustr \<times> ustr list \<times> ustr list) list \<Rightarrow> ustr list" where
  "paths_of triples = concat (map (\<lambda>(path, dirs, nms). map (path_join path) nms) triples)"

definition walked :: "ustr \<Rightarrow> world \<Rightarrow> ustr list" where
  "walked FILE_PATH w = paths_of (walk w (CS_PATH FILE_PATH))"

definition same_file :: "world \<Rightarrow> ustr \<Rightarrow> ustr \<Rightarrow> bool" where
  "same_file w q p = (case resolve w q of None \<Rightarrow> False | Some i \<Rightarrow> resolve w p = Some i)"

definition unaliased :: "ustr \<Rightarrow> world \<Rightarrow> ustr \<Rightarrow> bool" where
  "unaliased FILE_PATH w p =
     list_all (\<lambda>q. \<not> (endswith q (str ''.cs'') \<and> same_file w q p)) (walked FILE_PATH w)"

text \<open>
  A tree with the two names \<^verbatim>\<open>Real.CS\<close> and \<^verbatim>\<open>link.cs\<close>, both over the content
  \<^verbatim>\<open><see cref="SadRogue.A"/>\<close>, answered with \<^verbatim>\<open>y\<close>. With \<open>k = 0\<close> the second name is a link
  to the file of the first; with \<open>k = 1\<close> it is a file of its own.
\<close>

definition pair_scenario :: "nat \<Rightarrow> world" where
  "pair_scenario k =
     \<lparr>inode_of = [doc_path ''Real.CS'' \<mapsto> 0, doc_path ''link.cs'' \<mapsto> k],
      inodes = [\<lparr>content = bytes ''<see cref=\"SadRogue.A\"/>'', readable = True, writable = True\<rparr>,
                \<lparr>content = bytes ''<see cref=\"SadRogue.A\"/>'', readable = True, writable = True\<rparr>],
      walk = (\<lambda>top. if top = str ''/repo/GoRogue.Docs/../GoRogue''
                     then [(top, [], [str ''Real.CS'', str ''link.cs''])] else []),
      stdin = [str ''y''], stdout = [], opened = []\<rparr>"

text \<open>
  The shape the two patterns share, with the namespace as a parameter.
\<close>

definition cref :: "string \<Rightarrow> item list" where
  "cref ns =
     lits ''<'' @ [LazyStar Space] @ lits ''see'' @ [LazyStar Space] @ lits ''cref'' @
     [LazyStar Space] @ lits ''='' @ [LazyStar Space] @ lits ''\"'' @
     [Open] @ lits ns @ lits ''.'' @ [LazyPlus Dot] @ [Close] @
     lits ''\"'' @ [LazyStar Space] @ lits ''/'' @ [LazyStar Space] @ lits ''>''"

text \<open>
  \<open>viable r s\<close>: the pattern, started at the head of \<open>s\<close>, either completes within \<open>s\<close>
  or is still running when \<open>s\<close> ends, so that some continuation of \<open>s\<close> could give a
  match. A run of text is plain when no match can start inside it, whatever follows.
\<close>

fun viable :: "item list \<Rightarrow> ustr \<Rightarrow> bool" where
  "viable [] s = True"
| "viable (One c # r) [] = True"
| "viable (One c # r) (x # xs) = (cls_match c x \<and> viable r xs)"
| "viable (LazyStar c # r) s =
     (viable r s \<or>
      (case s of [] \<Rightarrow> False | x # xs \<Rightarrow> cls_match c x \<and> viable (LazyStar c # r) xs))"
| "viable (LazyPlus c # r) [] = True"
| "viable (LazyPlus c # r) (x # xs) = (cls_match c x \<and> viable (LazyStar c # r) xs)"
| "viable (Open # r) s = viable r s"
| "viable (Close # r) s = viable r s"

definition can_start :: "ustr \<Rightarrow> bool" where
  "can_start v \<longleftrightarrow> v \<noteq> [] \<and> list_ex (\<lambda>r. viable r v) CREF_REGEXES"

definition plain_ok :: "ustr \<Rightarrow> bool" where
  "plain_ok u \<longleftrightarrow> \<not> list_ex can_start (suffixes u)"

text \<open>
  Tag-structured text: a sequence of plain runs and self-closing \<^verbatim>\<open>see\<close> tags. The
  quoted qualifier of a tag is free of \<^verbatim>\<open><\<close>, and where it starts with an allow-listed
  namespace and a dot, the rest is a well-formed name. A tag is expected to become its
  qualifier when that is allow-listed and to stay as it is otherwise; \<open>pass_piece\<close> is
  what one pattern alone is expected to do.
\<close>

datatype piece = Plain ustr | SeeTag ustr ustr ustr ustr ustr ustr ustr

fun render_piece :: "piece \<Rightarrow> ustr" where
  "render_piece (Plain u) = u"
| "render_piece (SeeTag w1 w2 w3 w4 q w5 w6) = see_tag w1 w2 w3 w4 q w5 w6"

definition render :: "piece list \<Rightarrow> ustr" where
  "render ps = concat (map render_piece ps)"

definition allow_listed :: "ustr \<Rightarrow> bool" where
  "allow_listed q \<longleftrightarrow> prefix (str ''SadRogue.'') q \<or> prefix (str ''Troschuetz.'') q"

definition qualifier_ok :: "ustr \<Rightarrow> bool" where
  "qualifier_ok q \<longleftrightarrow>
     60 \<notin> set q \<and>
     (if prefix (str ''SadRogue.'') q then name_ok (drop 9 q)
      else if prefix (str ''Troschuetz.'') q then name_ok (drop 11 q)
      else True)"

fun wf_piece :: "piece \<Rightarrow> bool" where
  "wf_piece (Plain u) = plain_ok u"
| "wf_piece (SeeTag w1 w2 w3 w4 q w5 w6) =
     (spaces w1 \<and> spaces w2 \<and> spaces w3 \<and> spaces w4 \<and> spaces w5 \<and> spaces w6 \<and> qualifier_ok q)"

fun rewritten_piece :: "piece \<Rightarrow> ustr" where
  "rewritten_piece (Plain u) = u"
| "rewritten_piece (SeeTag w1 w2 w3 w4 q w5 w6) =
     (if allow_listed q then q else see_tag w1 w2 w3 w4 q w5 w6)"

fun pass_piece :: "string \<Rightarrow> piece \<Rightarrow> piece" where
  "pass_piece ns (Plain u) = Plain u"
| "pass_piece ns (SeeTag w1 w2 w3 w4 q w5 w6) =
     (if prefix (str ns @ str ''.'') q then Plain q else SeeTag w1 w2 w3 w4 q w5 w6)"

text \<open>
  A tag-structured text with generics, a summary tag, a tag of another namespace, a
  paired tag closed before the end of its line, and one self-closing tag of each
  allow-listed namespace.
\<close>

definition sample :: "piece list" where
  "sample =
     [Plain (str ''/// <summary>A List<int>, <see cref=\"System.String\"/> or ''),
      SeeTag [] (str '' '') [] [] (str ''SadRogue.Primitives.Point'') (str '' '') [],
      Plain (str '' and <see cref=\"SadRogue.X\">x</see>'' @ [10] @ str ''/// ''),
      SeeTag [] (str '' '') [] [] (str ''Troschuetz.Random.IGenerator'') [] []]"

text \<open>
  Two parts of the above, named for the proofs: the pattern from the namespace on, and a
  tag without its leading \<^verbatim>\<open><\<close>.
\<close>

definition body :: "string \<Rightarrow> item list" where
  "body ns =
     lits ns @ lits ''.'' @
     [LazyPlus Dot, Close, One (Lit 34), LazyStar Space, One (Lit 47), LazyStar Space,
      One (Lit 62)]"

definition tag_rest :: "ustr \<Rightarrow> ustr \<Rightarrow> ustr \<Rightarrow> ustr \<Rightarrow> ustr \<Rightarrow> ustr \<Rightarrow> ustr \<Rightarrow> ustr" where
  "tag_rest w1 w2 w3 w4 q w5 w6 =
     w1 @ str ''see'' @ w2 @ str ''cref'' @ w3 @ str ''='' @ w4 @
     str ''\"'' @ q @ str ''\"'' @ w5 @ str ''/'' @ w6 @ str ''>''"

section \<open>The substitution never lengthens the text\<close>

lemma emit_span_length:
  assumes "\<And>a. m0 = Some a \<Longrightarrow> length a \<le> n" and "\<And>b. m1 = Some b \<Longrightarrow> length s \<le> length b"
    and "length s \<le> n"
  shows "length (emit (span m0 m1)) + length s \<le> n"
proof (cases m0)
  case None
  then show ?thesis using assms(3) by (simp add: emit_def)
next
  case (Some a)
  note a = this
  show ?thesis
  proof (cases m1)
    case None
    with a show ?thesis using assms(3) by (simp add: emit_def)
  next
    case (Some b)
    have "length a \<le> n" "length s \<le> length b" using assms(1)[OF a] assms(2)[OF Some] by auto
    then show ?thesis using a Some assms(3) by (simp add: emit_def)
  qed
qed

text \<open>
  Along a match the open mark stays within the subject and the close mark is never behind
  the current position, so group 1 fits between the start and the end of the match.
\<close>

lemma re_match_bound:
  assumes "re_match r s m0 m1 = Some mo" and "length s \<le> n"
    and "\<And>a. m0 = Some a \<Longrightarrow> length a \<le> n" and "\<And>b. m1 = Some b \<Longrightarrow> length s \<le> length b"
  shows "length (m_end mo) \<le> length s \<and> length (emit (group1 mo)) + length (m_end mo) \<le> n"
  using assms
proof (induction r s m0 m1 arbitrary: mo rule: re_match.induct)
  case (1 s m0 m1)
  have "length (emit (span m0 m1)) + length s \<le> n"
    using "1.prems"(2,3,4) by (intro emit_span_length) auto
  then show ?case using "1.prems"(1) by auto
next
  case (2 c r m0 m1)
  then show ?case by simp
next
  case (3 c r x xs m0 m1)
  then have cx: "cls_match c x" and rec: "re_match r xs m0 m1 = Some mo"
    by (auto split: if_splits)
  have "length (m_end mo) \<le> length xs \<and> length (emit (group1 mo)) + length (m_end mo) \<le> n"
  proof (rule "3.IH"[OF cx rec])
    show "length xs \<le> n" using "3.prems"(2) by simp
    show "\<And>a. m0 = Some a \<Longrightarrow> length a \<le> n" using "3.prems"(3) by simp
    show "\<And>b. m1 = Some b \<Longrightarrow> length xs \<le> length b" using "3.prems"(4) by fastforce
  qed
  then show ?case by simp
next
  case (4 c r s m0 m1)
  show ?case
  proof (cases "re_match r s m0 m1")
    case (Some mo')
    then have "mo' = mo" using "4.prems"(1) by simp
    with Some "4.IH"(1)[of mo] "4.prems" show ?thesis by blast
  next
    case None
    with "4.prems"(1) obtain x xs where s: "s = x # xs" and cx: "cls_match c x"
      and rec: "re_match (LazyStar c # r) xs m0 m1 = Some mo"
      by (auto split: list.splits if_splits)
    have "length (m_end mo) \<le> length xs \<and> length (emit (group1 mo)) + length (m_end mo) \<le> n"
    proof (rule "4.IH"(2)[OF None s cx rec])
      show "length xs \<le> n" using "4.prems"(2) s by simp
      show "\<And>a. m0 = Some a \<Longrightarrow> length a \<le> n" using "4.prems"(3) by simp
      show "\<And>b. m1 = Some b \<Longrightarrow> length xs \<le> length b" using "4.prems"(4) s by fastforce
    qed
    then show ?thesis using s by simp
  qed
next
  case (5 c r m0 m1)
  then show ?case by simp
next
  case (6 c r x xs m0 m1)
  then have cx: "cls_match c x" and rec: "re_match (LazyStar c # r) xs m0 m1 = Some mo"
    by (auto split: if_splits)
  have "length (m_end mo) \<le> length xs \<and> length (emit (group1 mo)) + length (m_end mo) \<le> n"
  proof (rule "6.IH"[OF cx rec])
    show "length xs \<le> n" using "6.prems"(2) by simp
    show "\<And>a. m0 = Some a \<Longrightarrow> length a \<le> n" using "6.prems"(3) by simp
    show "\<And>b. m1 = Some b \<Longrightarrow> length xs \<le> length b" using "6.prems"(4) by fastforce
  qed
  then show ?case by simp
next
  case (7 r s m0 m1)
  have rec: "re_match r s (Some s) m1 = Some mo" using "7.prems"(1) by simp
  show ?case
  proof (rule "7.IH"[OF rec])
    show "length s \<le> n" by (rule "7.prems"(2))
    show "\<And>a. Some s = Some a \<Longrightarrow> length a \<le> n" using "7.prems"(2) by simp
    show "\<And>b. m1 = Some b \<Longrightarrow> length s \<le> length b" using "7.prems"(4) by simp
  qed
next
  case (8 r s m0 m1)
  have rec: "re_match r s m0 (Some s) = Some mo" using "8.prems"(1) by simp
  show ?case
  proof (rule "8.IH"[OF rec])
    show "length s \<le> n" by (rule "8.prems"(2))
    show "\<And>a. m0 = Some a \<Longrightarrow> length a \<le> n" using "8.prems"(3) by simp
    show "\<And>b. Some s = Some b \<Longrightarrow> length s \<le> length b" by simp
  qed
qed

lemma re_sub_length: "length (re_sub r convert_to_match s) \<le> length s"
proof (induction r convert_to_match s rule: re_sub.induct)
  case (1 r)
  show ?case
  proof (cases "re_match r [] None None")
    case None
    then show ?thesis by simp
  next
    case (Some mo)
    have "length (emit (group1 mo)) + length (m_end mo) \<le> 0"
      using re_match_bound[OF Some, of 0] by simp
    then show ?thesis using Some by (simp add: convert_to_match_def)
  qed
next
  case (2 r c cs)
  show ?case
  proof (cases "re_match r (c # cs) None None")
    case None
    with 2(1) show ?thesis by simp
  next
    case (Some mo)
    have b: "length (m_end mo) \<le> length (c # cs)"
      "length (emit (group1 mo)) + length (m_end mo) \<le> length (c # cs)"
      using re_match_bound[OF Some, of "length (c # cs)"] by simp_all
    show ?thesis
    proof (cases "length (m_end mo) < length (c # cs)")
      case True
      have "length (re_sub r convert_to_match (m_end mo)) \<le> length (m_end mo)"
        by (rule 2(2)[OF Some True])
      with b True Some show ?thesis by (simp add: convert_to_match_def)
    next
      case False
      have "length (re_sub r convert_to_match cs) \<le> length cs"
        by (rule 2(3)[OF Some False])
      with b False Some show ?thesis by (simp add: convert_to_match_def)
    qed
  qed
qed

lemma foldl_re_sub_length:
  "length (foldl (\<lambda>d regex. re_sub regex convert_to_match d) t rs) \<le> length t"
proof (induction rs arbitrary: t)
  case Nil
  show ?case by simp
next
  case (Cons r rs)
  have "length (foldl (\<lambda>d regex. re_sub regex convert_to_match d) (re_sub r convert_to_match t) rs)
          \<le> length (re_sub r convert_to_match t)" by (rule Cons.IH)
  also have "\<dots> \<le> length t" by (rule re_sub_length)
  finally show ?case by simp
qed

text \<open>
  Claim C9. For every input text the output of \<open>rewrite\<close> is at most as long as the input:
  each substitution puts group 1 of a match in the place of the whole match, and the
  group lies inside the match.
\<close>

theorem rewrite_never_lengthens: "length (rewrite t) \<le> length t"
  by (simp add: rewrite_def foldl_re_sub_length)

section \<open>The confirmation prompt\<close>

lemma confirm_value:
  "stdin w = resp # rest \<Longrightarrow>
   confirm_continue_prompt w =
     (Inr (resp = str ''y'' \<or> resp = str ''Y''),
      w\<lparr>stdout := stdout w @ PROMPT @ [10], stdin := rest\<rparr>)"
  by (simp add: confirm_continue_prompt_def py_input_def py_print_def)

lemma confirm_frame:
  "inode_of (snd (confirm_continue_prompt w)) = inode_of w \<and>
   inodes (snd (confirm_continue_prompt w)) = inodes w \<and>
   opened (snd (confirm_continue_prompt w)) = opened w \<and>
   walk (snd (confirm_continue_prompt w)) = walk w"
  by (simp add: confirm_continue_prompt_def py_input_def py_print_def split: list.split)

lemma resolve_eq:
  "inode_of w' = inode_of w \<Longrightarrow> length (inodes w') = length (inodes w) \<Longrightarrow> resolve w' = resolve w"
  by (rule ext) (simp add: resolve_def split: option.split)

lemma resolve_lt: "resolve w p = Some i \<Longrightarrow> i < length (inodes w)"
  by (auto simp: resolve_def split: option.splits if_splits)

lemma files_eq:
  "inode_of w' = inode_of w \<Longrightarrow> inodes w' = inodes w \<Longrightarrow> files w' = files w"
  by (rule ext) (simp add: files_def resolve_def split: option.split)

text \<open>
  Claim C8. \<^verbatim>\<open>confirm_continue_prompt\<close> returns true exactly when the response line is the
  single letter \<^verbatim>\<open>y\<close> (code point 121) or \<^verbatim>\<open>Y\<close> (code point 89); every other response,
  in particular every response that is not one character long, such as the empty line
  or \<^verbatim>\<open>yes\<close>, returns false.
\<close>

theorem confirm_continue_prompt_iff:
  "stdin w = resp # rest \<Longrightarrow>
   fst (confirm_continue_prompt w) = Inr (resp = [121] \<or> resp = [89]) \<and>
   (length resp \<noteq> 1 \<longrightarrow> fst (confirm_continue_prompt w) = Inr False)"
  by (auto simp: confirm_value str_def)

theorem confirm_continue_prompt_iff_witness:
  "stdin (scenario ''Doc.cs'' '''' ''yes'') = str ''yes'' # [] \<and>
   fst (confirm_continue_prompt (scenario ''Doc.cs'' '''' ''yes'')) = Inr False \<and>
   fst (confirm_continue_prompt (scenario ''Doc.cs'' '''' ''Y'')) = Inr True \<and>
   fst (confirm_continue_prompt (scenario ''Doc.cs'' '''' '''')) = Inr False"
proof -
  have h1: "stdin (scenario ''Doc.cs'' '''' ''yes'') = str ''yes'' # []"
    and h2: "stdin (scenario ''Doc.cs'' '''' ''Y'') = str ''Y'' # []"
    and h3: "stdin (scenario ''Doc.cs'' '''' '''') = str '''' # []"
    by (simp_all add: scenario_def)
  show ?thesis
    using h1 confirm_continue_prompt_iff[OF h1] confirm_continue_prompt_iff[OF h2]
      confirm_continue_prompt_iff[OF h3]
    by (simp add: str_def)
qed

text \<open>
  Claim C7. When the answer to the prompt is any line other than \<^verbatim>\<open>y\<close> or \<^verbatim>\<open>Y\<close>, \<^verbatim>\<open>main\<close>
  returns normally, no path has been given to \<^verbatim>\<open>open\<close>, and the files, their names
  and what every path shows, are what they were before the run.
\<close>

theorem declined_prompt_no_effect:
  assumes "stdin w = resp # rest" and "resp \<noteq> str ''y''" and "resp \<noteq> str ''Y''"
  shows "fst (main FILE_PATH w) = Inr () \<and> files (snd (main FILE_PATH w)) = files w \<and>
         opened (snd (main FILE_PATH w)) = opened w \<and>
         inode_of (snd (main FILE_PATH w)) = inode_of w \<and> inodes (snd (main FILE_PATH w)) = inodes w"
proof -
  let ?w1 = "w\<lparr>stdout := stdout w @ PROMPT @ [10], stdin := rest\<rparr>"
  have m: "main FILE_PATH w = (Inr (), ?w1)"
    using assms by (simp add: main_def confirm_value)
  have "files ?w1 = files w" by (rule files_eq) simp_all
  with m show ?thesis by simp
qed

theorem declined_prompt_no_effect_witness:
  "stdin (scenario ''Doc.cs'' ''<see cref=\"SadRogue.A\"/>'' ''n'') = [str ''n''] \<and>
   str ''n'' \<noteq> str ''y'' \<and> str ''n'' \<noteq> str ''Y'' \<and>
   fst (main script_dir (scenario ''Doc.cs'' ''<see cref=\"SadRogue.A\"/>'' ''n'')) = Inr () \<and>
   files (snd (main script_dir (scenario ''Doc.cs'' ''<see cref=\"SadRogue.A\"/>'' ''n''))) =
     files (scenario ''Doc.cs'' ''<see cref=\"SadRogue.A\"/>'' ''n'') \<and>
   opened (snd (main script_dir (scenario ''Doc.cs'' ''<see cref=\"SadRogue.A\"/>'' ''n''))) = []"
proof -
  have h1: "stdin (scenario ''Doc.cs'' ''<see cref=\"SadRogue.A\"/>'' ''n'') = [str ''n'']"
    by (simp add: scenario_def)
  have h2: "str ''n'' \<noteq> str ''y''" and h3: "str ''n'' \<noteq> str ''Y''"
    by (simp_all add: str_def)
  have h4: "opened (scenario ''Doc.cs'' ''<see cref=\"SadRogue.A\"/>'' ''n'') = []"
    by (simp add: scenario_def)
  show ?thesis
    using declined_prompt_no_effect[OF h1 h2 h3, of script_dir] h1 h2 h3 h4 by simp
qed

section \<open>End-to-end scenarios\<close>

lemma of_char_nat_lt: "(of_char c :: nat) < 256"
  by (cases c) (simp add: of_char_def)

lemma unat_of_char: "unat (of_char c :: byte) = of_char c"
proof -
  have "(of_char c :: byte) = of_nat (of_char c)" by (simp add: of_nat_of_char)
  then have "unat (of_char c :: byte) = (of_char c :: nat) mod 256"
    by (simp only: unat_of_nat) simp
  then show ?thesis using of_char_nat_lt[of c] by simp
qed

lemma byte_lt_128: "((of_char c :: byte) < 0x80) = ((of_char c :: nat) < 128)"
  by (simp add: word_less_nat_alt unat_of_char)

lemma of_nat_of_char_byte: "(of_nat (of_char c) :: byte) = of_char c"
  by (rule of_nat_of_char)

text \<open>
  On ASCII the codec is the identity on code values, in both directions.
\<close>

lemma utf8_decode_ascii:
  "list_all (\<lambda>c. (of_char c :: nat) < 128) s \<Longrightarrow> utf8_decode (bytes s) = Some (str s)"
  by (induction s) (simp_all add: bytes_def str_def byte_lt_128 unat_of_char)

lemma utf8_encode_ascii:
  "list_all (\<lambda>c. (of_char c :: nat) < 128) s \<Longrightarrow> utf8_encode (str s) = Some (bytes s)"
  by (induction s) (simp_all add: bytes_def str_def utf8_encode_char_def of_nat_of_char_byte)

lemma process_ascii:
  assumes "endswith p (str ''.cs'')"
    and "resolve w p = Some i"
    and "inodes w ! i = \<lparr>content = bytes s, readable = True, writable = True\<rparr>"
    and "list_all (\<lambda>c. (of_char c :: nat) < 128) s"
    and "rewrite (str s) = str s'"
    and "list_all (\<lambda>c. (of_char c :: nat) < 128) s'"
  shows "process p w =
    (Inr (), w\<lparr>opened := opened w @ [p, p],
               inodes := (inodes w)[i := \<lparr>content = bytes s', readable = True, writable = True\<rparr>]\<rparr>)"
proof -
  let ?w1 = "w\<lparr>opened := opened w @ [p]\<rparr>"
  let ?w2 = "w\<lparr>opened := opened w @ [p, p],
      inodes := (inodes w)[i := \<lparr>content = [], readable = True, writable = True\<rparr>]\<rparr>"
  have i: "i < length (inodes w)" by (rule resolve_lt[OF assms(2)])
  have r1: "resolve ?w1 p = Some i"
    using assms(2) resolve_eq[of ?w1 w] by simp
  have r2: "resolve ?w2 p = Some i"
    using assms(2) resolve_eq[of ?w2 w] by simp
  have rd: "open_rb p w = (Inr (bytes s), ?w1)"
    using assms(2,3) by (simp add: open_rb_def files_def)
  have wr: "open_wb p ?w1 = (Inr (), ?w2)"
    using r1 assms(3) by (simp add: open_wb_def)
  have pw: "py_write p (bytes s') ?w2 =
      w\<lparr>opened := opened w @ [p, p],
        inodes := (inodes w)[i := \<lparr>content = bytes s', readable = True, writable = True\<rparr>]\<rparr>"
    using r2 i by (simp add: py_write_def)
  show ?thesis
    using assms(1) rd wr pw
    by (simp add: process_def utf8_decode_ascii[OF assms(4)] assms(5)
        utf8_encode_ascii[OF assms(6)])
qed

lemma main_scenario:
  assumes "endswith (doc_path nm) (str ''.cs'')"
    and "list_all (\<lambda>c. (of_char c :: nat) < 128) s"
    and "rewrite (str s) = str s'"
    and "list_all (\<lambda>c. (of_char c :: nat) < 128) s'"
    and "path_join (str ''/repo/GoRogue.Docs/../GoRogue'') (str nm) = doc_path nm"
  shows "fst (main script_dir (scenario nm s ''y'')) = Inr () \<and>
     map_option content (files (snd (main script_dir (scenario nm s ''y''))) (doc_path nm)) =
       Some (bytes s')"
proof -
  define w1 where "w1 = (scenario nm s ''y'')\<lparr>stdout := PROMPT @ [10], stdin := []\<rparr>"
  have c: "confirm_continue_prompt (scenario nm s ''y'') = (Inr True, w1)"
    using confirm_value[of "scenario nm s ''y''" "str ''y''" "[]"]
    by (simp add: scenario_def w1_def)
  have cs: "CS_PATH script_dir = str ''/repo/GoRogue.Docs/../GoRogue''"
    by (simp add: CS_PATH_def script_dir_def path_join_def str_def)
  have wk: "walk w1 (str ''/repo/GoRogue.Docs/../GoRogue'') =
      [(str ''/repo/GoRogue.Docs/../GoRogue'', [], [str nm])]"
    by (simp add: scenario_def w1_def)
  have r: "resolve w1 (doc_path nm) = Some 0"
    by (simp add: scenario_def w1_def resolve_def)
  have f: "inodes w1 ! 0 = \<lparr>content = bytes s, readable = True, writable = True\<rparr>"
    by (simp add: scenario_def w1_def)
  note p = process_ascii[OF assms(1) r f assms(2,3,4)]
  have "main script_dir (scenario nm s ''y'') =
     (Inr (), w1\<lparr>opened := opened w1 @ [doc_path nm, doc_path nm],
               inodes := (inodes w1)[0 := \<lparr>content = bytes s', readable = True, writable = True\<rparr>]\<rparr>)"
    by (simp add: main_def c cs wk assms(5) p)
  then show ?thesis by (simp add: files_def resolve_def scenario_def w1_def)
qed

lemma doc_cs_path:
  "endswith (doc_path ''Doc.cs'') (str ''.cs'')"
  "path_join (str ''/repo/GoRogue.Docs/../GoRogue'') (str ''Doc.cs'') = doc_path ''Doc.cs''"
  by (simp_all add: endswith_def path_join_def doc_path_def str_def)

lemmas eval_rewrite =
  rewrite_def CREF_REGEXES_def lits_def str_def is_space_def convert_to_match_def emit_def

text \<open>
  Claim C5. A run of \<^verbatim>\<open>main\<close>, confirmed with \<^verbatim>\<open>y\<close>, over a tree whose one file \<^verbatim>\<open>Doc.cs\<close>
  holds \<^verbatim>\<open>See also: <see cref="SadRogue.Primitives.Point" />.\<close> ends normally and leaves
  exactly \<^verbatim>\<open>See also: SadRogue.Primitives.Point.\<close> in the file.
\<close>

theorem scenario_point_tag:
  "fst (main script_dir
          (scenario ''Doc.cs'' ''See also: <see cref=\"SadRogue.Primitives.Point\" />.'' ''y'')) =
     Inr () \<and>
   map_option content
     (files (snd (main script_dir
          (scenario ''Doc.cs'' ''See also: <see cref=\"SadRogue.Primitives.Point\" />.'' ''y'')))
        (doc_path ''Doc.cs'')) =
     Some (bytes ''See also: SadRogue.Primitives.Point.'')"
proof (rule main_scenario)
  show "rewrite (str ''See also: <see cref=\"SadRogue.Primitives.Point\" />.'') =
        str ''See also: SadRogue.Primitives.Point.''"
    by (simp add: eval_rewrite)
qed (simp_all add: doc_cs_path)

text \<open>
  Claim C6. A run of \<^verbatim>\<open>main\<close>, confirmed with \<^verbatim>\<open>y\<close>, over a tree whose one file \<^verbatim>\<open>Doc.cs\<close>
  holds \<^verbatim>\<open><see cref="Troschuetz.Random.IGenerator"/> and <see cref="System.Int32"/>\<close> ends
  normally and leaves exactly
  \<^verbatim>\<open>Troschuetz.Random.IGenerator and <see cref="System.Int32"/>\<close> in the file: the
  Troschuetz tag is rewritten, the System tag is not.
\<close>

theorem scenario_mixed_tags:
  "fst (main script_dir
          (scenario ''Doc.cs''
             ''<see cref=\"Troschuetz.Random.IGenerator\"/> and <see cref=\"System.Int32\"/>'' ''y'')) =
     Inr () \<and>
   map_option content
     (files (snd (main script_dir
          (scenario ''Doc.cs''
             ''<see cref=\"Troschuetz.Random.IGenerator\"/> and <see cref=\"System.Int32\"/>'' ''y'')))
        (doc_path ''Doc.cs'')) =
     Some (bytes ''Troschuetz.Random.IGenerator and <see cref=\"System.Int32\"/>'')"
proof (rule main_scenario)
  show "rewrite (str ''<see cref=\"Troschuetz.Random.IGenerator\"/> and <see cref=\"System.Int32\"/>'') =
        str ''Troschuetz.Random.IGenerator and <see cref=\"System.Int32\"/>''"
    by (simp add: eval_rewrite)
qed (simp_all add: doc_cs_path)

section \<open>The extension filter\<close>

text \<open>
  The processing of a path never changes which file a path names, nor the number of
  files; it gives to \<^verbatim>\<open>open\<close> only its own path, and only if that ends with \<^verbatim>\<open>.cs\<close>; and
  it changes only the file its own path resolves to.
\<close>

lemma open_rb_world: "snd (open_rb p w) = w\<lparr>opened := opened w @ [p]\<rparr>"
  by (simp add: open_rb_def Let_def split: option.split)

lemma open_rb_ok: "fst (open_rb p w) = Inr d \<Longrightarrow> \<exists>i. resolve w p = Some i"
  by (cases "resolve w p") (simp_all add: open_rb_def files_def Let_def)

lemma open_wb_world:
  assumes "resolve w p = Some i"
  shows "\<exists>xs. snd (open_wb p w) = w\<lparr>opened := opened w @ [p], inodes := xs\<rparr> \<and>
              length xs = length (inodes w) \<and> (\<forall>j. j \<noteq> i \<longrightarrow> xs ! j = inodes w ! j)"
proof (cases "writable (inodes w ! i)")
  case True
  then have "snd (open_wb p w) =
      w\<lparr>opened := opened w @ [p], inodes := (inodes w)[i := (inodes w ! i)\<lparr>content := []\<rparr>]\<rparr>"
    using assms by (simp add: open_wb_def Let_def)
  then show ?thesis by (intro exI[of _ "(inodes w)[i := (inodes w ! i)\<lparr>content := []\<rparr>]"]) simp
next
  case False
  then have "snd (open_wb p w) = w\<lparr>opened := opened w @ [p], inodes := inodes w\<rparr>"
    using assms by (simp add: open_wb_def Let_def)
  then show ?thesis by (intro exI[of _ "inodes w"]) simp
qed

lemma py_write_world:
  assumes "resolve w p = Some i"
  shows "\<exists>xs. py_write p bs w = w\<lparr>inodes := xs\<rparr> \<and>
              length xs = length (inodes w) \<and> (\<forall>j. j \<noteq> i \<longrightarrow> xs ! j = inodes w ! j)"
  using assms
  by (intro exI[of _ "(inodes w)[i := (inodes w ! i)\<lparr>content := content (inodes w ! i) @ bs\<rparr>]"])
     (simp add: py_write_def)

text \<open>
  What the processing of one path can do to the world: it appends its own path to the
  log, and only if the path ends with \<^verbatim>\<open>.cs\<close>; it keeps the table of names and the number
  of files; and it changes no file other than the one its path resolves to.
\<close>

lemma process_world:
  "\<exists>os xs. snd (process q w) = w\<lparr>opened := opened w @ os, inodes := xs\<rparr> \<and>
     set os \<subseteq> {q} \<and> (os \<noteq> [] \<longrightarrow> endswith q (str ''.cs'')) \<and>
     length xs = length (inodes w) \<and>
     (\<forall>j. \<not> (endswith q (str ''.cs'') \<and> resolve w q = Some j) \<longrightarrow> xs ! j = inodes w ! j)"
    (is "\<exists>os xs. ?P os xs")
proof (cases "endswith q (str ''.cs'')")
  case False
  then have "?P [] (inodes w)" by (simp add: process_def)
  then show ?thesis by blast
next
  case cs: True
  let ?w1 = "w\<lparr>opened := opened w @ [q]\<rparr>"
  obtain r1 where rd: "open_rb q w = (r1, ?w1)"
    using open_rb_world[of q w] by (cases "open_rb q w") simp
  have stop1: "?P [q] (inodes w)" if "process q w = (x, ?w1)" for x
    using that cs by simp
  show ?thesis
  proof (cases r1)
    case (Inl e)
    with rd cs have "process q w = (Inl e, ?w1)" by (simp add: process_def)
    from stop1[OF this] show ?thesis by blast
  next
    case (Inr data)
    with rd obtain i where i: "resolve w q = Some i"
      using open_rb_ok[of q w data] by auto
    have i1: "resolve ?w1 q = Some i" using i resolve_eq[of ?w1 w] by simp
    show ?thesis
    proof (cases "utf8_decode data")
      case None
      with rd Inr cs have "process q w = (Inl UnicodeDecodeError, ?w1)"
        by (simp add: process_def)
      from stop1[OF this] show ?thesis by blast
    next
      case (Some file_data)
      from open_wb_world[OF i1] obtain xs where
        w2: "snd (open_wb q ?w1) = ?w1\<lparr>opened := opened ?w1 @ [q], inodes := xs\<rparr>"
        and xs: "length xs = length (inodes w)" "\<forall>j. j \<noteq> i \<longrightarrow> xs ! j = inodes w ! j"
        by auto
      let ?w2 = "w\<lparr>opened := opened w @ [q, q], inodes := xs\<rparr>"
      obtain r2 where wr: "open_wb q ?w1 = (r2, ?w2)"
        using w2 by (cases "open_wb q ?w1") simp
      have stop2: "?P [q, q] xs" if "process q w = (x, ?w2)" for x
        using that cs xs i by auto
      show ?thesis
      proof (cases r2)
        case (Inl e)
        with rd Inr Some wr cs have "process q w = (Inl e, ?w2)"
          by (simp add: process_def \<open>r1 = Inr data\<close>)
        from stop2[OF this] show ?thesis by blast
      next
        case u: (Inr u)
        show ?thesis
        proof (cases "utf8_encode (rewrite file_data)")
          case None
          with rd \<open>r1 = Inr data\<close> Some wr u cs
          have "process q w = (Inl UnicodeEncodeError, ?w2)"
            by (simp add: process_def)
          from stop2[OF this] show ?thesis by blast
        next
          case enc: (Some bs)
          have i2: "resolve ?w2 q = Some i"
            using i xs(1) resolve_eq[of ?w2 w] by simp
          from py_write_world[OF i2, of bs] obtain ys where
            w3: "py_write q bs ?w2 = ?w2\<lparr>inodes := ys\<rparr>"
            and ys: "length ys = length xs" "\<forall>j. j \<noteq> i \<longrightarrow> ys ! j = xs ! j"
            by auto
          have "process q w = (Inr (), w\<lparr>opened := opened w @ [q, q], inodes := ys\<rparr>)"
            using rd \<open>r1 = Inr data\<close> Some wr u enc cs w3 by (simp add: process_def)
          then have "?P [q, q] ys" using cs xs ys i by auto
          then show ?thesis by blast
        qed
      qed
    qed
  qed
qed

lemma process_shape:
  "inode_of (snd (process q w)) = inode_of w \<and>
   length (inodes (snd (process q w))) = length (inodes w)"
  using process_world[of q w] by auto

lemma process_count:
  assumes "\<not> endswith p (str ''.cs'')"
  shows "count_list (opened (snd (process q w))) p = count_list (opened w) p"
proof -
  from process_world[of q w] obtain os xs where
    w: "snd (process q w) = w\<lparr>opened := opened w @ os, inodes := xs\<rparr>"
    and os: "set os \<subseteq> {q}" "os \<noteq> [] \<longrightarrow> endswith q (str ''.cs'')"
    by blast
  have "p \<notin> set os"
  proof
    assume "p \<in> set os"
    with os have "p = q" "endswith q (str ''.cs'')" by auto
    with assms show False by simp
  qed
  then have "count_list os p = 0" by (simp add: count_list_0_iff)
  with w show ?thesis by simp
qed

lemma process_inode:
  assumes "\<not> (endswith q (str ''.cs'') \<and> resolve w q = Some i)"
  shows "inodes (snd (process q w)) ! i = inodes w ! i"
  using process_world[of q w] assms by auto

lemma main_files_shape:
  "inode_of (snd (main_files path nms w)) = inode_of w \<and>
   length (inodes (snd (main_files path nms w))) = length (inodes w)"
proof (induction nms arbitrary: w)
  case Nil
  show ?case by simp
next
  case (Cons nm nms)
  obtain r w1 where pr: "process (path_join path nm) w = (r, w1)" by force
  have w1: "inode_of w1 = inode_of w \<and> length (inodes w1) = length (inodes w)"
    using process_shape[of "path_join path nm" w] pr by simp
  show ?case
  proof (cases r)
    case (Inl e)
    with pr w1 show ?thesis by simp
  next
    case (Inr u)
    with pr w1 Cons.IH[of w1] show ?thesis by simp
  qed
qed

lemma main_files_count:
  assumes "\<not> endswith p (str ''.cs'')"
  shows "count_list (opened (snd (main_files path nms w))) p = count_list (opened w) p"
proof (induction nms arbitrary: w)
  case Nil
  show ?case by simp
next
  case (Cons nm nms)
  obtain r w1 where pr: "process (path_join path nm) w = (r, w1)" by force
  have w1: "count_list (opened w1) p = count_list (opened w) p"
    using process_count[OF assms, of "path_join path nm" w] pr by simp
  show ?case
  proof (cases r)
    case (Inl e)
    with pr w1 show ?thesis by simp
  next
    case (Inr u)
    with pr w1 Cons.IH[of w1] show ?thesis by simp
  qed
qed

lemma main_files_inode:
  assumes "list_all (\<lambda>q. \<not> (endswith q (str ''.cs'') \<and> resolve w q = Some i))
             (map (path_join path) nms)"
  shows "inodes (snd (main_files path nms w)) ! i = inodes w ! i"
  using assms
proof (induction nms arbitrary: w)
  case Nil
  show ?case by simp
next
  case (Cons nm nms)
  obtain r w1 where pr: "process (path_join path nm) w = (r, w1)" by force
  have hd: "\<not> (endswith (path_join path nm) (str ''.cs'') \<and> resolve w (path_join path nm) = Some i)"
    using Cons.prems by simp
  have keep: "inodes w1 ! i = inodes w ! i"
    using process_inode[OF hd] pr by simp
  have "resolve w1 = resolve w"
    using process_shape[of "path_join path nm" w] pr by (intro resolve_eq) simp_all
  then have tl: "list_all (\<lambda>q. \<not> (endswith q (str ''.cs'') \<and> resolve w1 q = Some i))
             (map (path_join path) nms)"
    using Cons.prems by simp
  show ?case
  proof (cases r)
    case (Inl e)
    with pr keep show ?thesis by simp
  next
    case (Inr u)
    with pr keep Cons.IH[OF tl] show ?thesis by simp
  qed
qed

lemma main_walk_shape:
  "inode_of (snd (main_walk triples w)) = inode_of w \<and>
   length (inodes (snd (main_walk triples w))) = length (inodes w)"
proof (induction triples arbitrary: w)
  case Nil
  show ?case by simp
next
  case (Cons t triples)
  obtain path dirs nms where t: "t = (path, dirs, nms)" by (cases t) auto
  obtain r w1 where mf: "main_files path nms w = (r, w1)" by force
  have w1: "inode_of w1 = inode_of w \<and> length (inodes w1) = length (inodes w)"
    using main_files_shape[of path nms w] mf by simp
  show ?case
  proof (cases r)
    case (Inl e)
    with mf w1 t show ?thesis by simp
  next
    case (Inr u)
    with mf w1 t Cons.IH[of w1] show ?thesis by simp
  qed
qed

lemma main_walk_count:
  assumes "\<not> endswith p (str ''.cs'')"
  shows "count_list (opened (snd (main_walk triples w))) p = count_list (opened w) p"
proof (induction triples arbitrary: w)
  case Nil
  show ?case by simp
next
  case (Cons t triples)
  obtain path dirs nms where t: "t = (path, dirs, nms)" by (cases t) auto
  obtain r w1 where mf: "main_files path nms w = (r, w1)" by force
  have w1: "count_list (opened w1) p = count_list (opened w) p"
    using main_files_count[OF assms, of path nms w] mf by simp
  show ?case
  proof (cases r)
    case (Inl e)
    with mf w1 t show ?thesis by simp
  next
    case (Inr u)
    with mf w1 t Cons.IH[of w1] show ?thesis by simp
  qed
qed

lemma main_walk_inode:
  assumes "list_all (\<lambda>q. \<not> (endswith q (str ''.cs'') \<and> resolve w q = Some i)) (paths_of triples)"
  shows "inodes (snd (main_walk triples w)) ! i = inodes w ! i"
  using assms
proof (induction triples arbitrary: w)
  case Nil
  show ?case by simp
next
  case (Cons t triples)
  obtain path dirs nms where t: "t = (path, dirs, nms)" by (cases t) auto
  obtain r w1 where mf: "main_files path nms w = (r, w1)" by force
  have hd: "list_all (\<lambda>q. \<not> (endswith q (str ''.cs'') \<and> resolve w q = Some i))
             (map (path_join path) nms)"
    using Cons.prems t by (simp add: paths_of_def)
  have keep: "inodes w1 ! i = inodes w ! i"
    using main_files_inode[OF hd] mf by simp
  have "resolve w1 = resolve w"
    using main_files_shape[of path nms w] mf by (intro resolve_eq) simp_all
  then have tl: "list_all (\<lambda>q. \<not> (endswith q (str ''.cs'') \<and> resolve w1 q = Some i))
             (paths_of triples)"
    using Cons.prems t by (simp add: paths_of_def)
  show ?case
  proof (cases r)
    case (Inl e)
    with mf keep t show ?thesis by simp
  next
    case (Inr u)
    with mf keep t Cons.IH[OF tl] show ?thesis by simp
  qed
qed

lemma main_shape:
  "inode_of (snd (main FILE_PATH w)) = inode_of w \<and>
   length (inodes (snd (main FILE_PATH w))) = length (inodes w)"
proof -
  obtain r w1 where c: "confirm_continue_prompt w = (r, w1)" by force
  have w1: "inode_of w1 = inode_of w" "inodes w1 = inodes w"
    using confirm_frame[of w] c by simp_all
  show ?thesis
  proof (cases r)
    case (Inl e)
    with c w1 show ?thesis by (simp add: main_def)
  next
    case (Inr ok)
    with c w1 main_walk_shape[of "walk w1 (CS_PATH FILE_PATH)" w1]
    show ?thesis by (simp add: main_def)
  qed
qed

lemma main_count:
  assumes "\<not> endswith p (str ''.cs'')"
  shows "count_list (opened (snd (main FILE_PATH w))) p = count_list (opened w) p"
proof -
  obtain r w1 where c: "confirm_continue_prompt w = (r, w1)" by force
  have w1: "opened w1 = opened w" using confirm_frame[of w] c by simp
  show ?thesis
  proof (cases r)
    case (Inl e)
    with c w1 show ?thesis by (simp add: main_def)
  next
    case (Inr ok)
    with c w1 main_walk_count[OF assms, of "walk w1 (CS_PATH FILE_PATH)" w1]
    show ?thesis by (simp add: main_def)
  qed
qed

lemma main_inode:
  assumes "list_all (\<lambda>q. \<not> (endswith q (str ''.cs'') \<and> resolve w q = Some i))
             (walked FILE_PATH w)"
  shows "inodes (snd (main FILE_PATH w)) ! i = inodes w ! i"
proof -
  obtain r w1 where c: "confirm_continue_prompt w = (r, w1)" by force
  have w1: "inode_of w1 = inode_of w" "inodes w1 = inodes w" "walk w1 = walk w"
    using confirm_frame[of w] c by simp_all
  then have "resolve w1 = resolve w" by (intro resolve_eq) simp_all
  with assms w1(3)
  have h: "list_all (\<lambda>q. \<not> (endswith q (str ''.cs'') \<and> resolve w1 q = Some i))
             (paths_of (walk w1 (CS_PATH FILE_PATH)))"
    by (simp add: walked_def)
  show ?thesis
  proof (cases r)
    case (Inl e)
    with c w1 show ?thesis by (simp add: main_def)
  next
    case (Inr ok)
    with c w1 main_walk_inode[OF h] show ?thesis by (simp add: main_def)
  qed
qed

lemma main_unaliased:
  assumes "unaliased FILE_PATH w p"
  shows "files (snd (main FILE_PATH w)) p = files w p"
proof -
  have r: "resolve (snd (main FILE_PATH w)) = resolve w"
    using main_shape[of FILE_PATH w] by (intro resolve_eq) simp_all
  show ?thesis
  proof (cases "resolve w p")
    case None
    with r show ?thesis by (simp add: files_def)
  next
    case (Some i)
    have "list_all (\<lambda>q. \<not> (endswith q (str ''.cs'') \<and> resolve w q = Some i))
            (walked FILE_PATH w)"
      using assms Some
      by (auto simp: unaliased_def same_file_def list_all_iff split: option.splits)
    from main_inode[OF this] r Some show ?thesis by (simp add: files_def)
  qed
qed

text \<open>
  The run over the two names: \<^verbatim>\<open>Real.CS\<close> is passed over, \<^verbatim>\<open>link.cs\<close> is rewritten, and the
  rewritten file is the one \<^verbatim>\<open>link.cs\<close> resolves to.
\<close>

lemma main_pair_scenario:
  assumes "k < 2"
  shows "main script_dir (pair_scenario k) =
     (Inr (), (pair_scenario k)\<lparr>stdout := PROMPT @ [10], stdin := [],
        opened := [doc_path ''link.cs'', doc_path ''link.cs''],
        inodes := (inodes (pair_scenario k))
           [k := \<lparr>content = bytes ''SadRogue.A'', readable = True, writable = True\<rparr>]\<rparr>)"
proof -
  define w1 where "w1 = (pair_scenario k)\<lparr>stdout := PROMPT @ [10], stdin := []\<rparr>"
  have c: "confirm_continue_prompt (pair_scenario k) = (Inr True, w1)"
    using confirm_value[of "pair_scenario k" "str ''y''" "[]"]
    by (simp add: pair_scenario_def w1_def)
  have cs: "CS_PATH script_dir = str ''/repo/GoRogue.Docs/../GoRogue''"
    by (simp add: CS_PATH_def script_dir_def path_join_def str_def)
  have wk: "walk w1 (str ''/repo/GoRogue.Docs/../GoRogue'') =
      [(str ''/repo/GoRogue.Docs/../GoRogue'', [], [str ''Real.CS'', str ''link.cs''])]"
    by (simp add: pair_scenario_def w1_def)
  have j: "path_join (str ''/repo/GoRogue.Docs/../GoRogue'') (str ''Real.CS'') = doc_path ''Real.CS''"
    "path_join (str ''/repo/GoRogue.Docs/../GoRogue'') (str ''link.cs'') = doc_path ''link.cs''"
    by (simp_all add: path_join_def doc_path_def str_def)
  have e: "\<not> endswith (doc_path ''Real.CS'') (str ''.cs'')"
    "endswith (doc_path ''link.cs'') (str ''.cs'')"
    by (simp_all add: endswith_def doc_path_def str_def)
  have ne: "doc_path ''link.cs'' \<noteq> doc_path ''Real.CS''"
    by (simp add: doc_path_def str_def)
  have r: "resolve w1 (doc_path ''link.cs'') = Some k"
    using assms ne by (simp add: pair_scenario_def w1_def resolve_def)
  have f: "inodes w1 ! k =
      \<lparr>content = bytes ''<see cref=\"SadRogue.A\"/>'', readable = True, writable = True\<rparr>"
    using assms by (cases k) (simp_all add: pair_scenario_def w1_def)
  have rw: "rewrite (str ''<see cref=\"SadRogue.A\"/>'') = str ''SadRogue.A''"
    by (simp add: eval_rewrite)
  have p1: "process (doc_path ''Real.CS'') w1 = (Inr (), w1)"
    using e(1) by (simp add: process_def)
  have p2: "process (doc_path ''link.cs'') w1 =
      (Inr (), w1\<lparr>opened := opened w1 @ [doc_path ''link.cs'', doc_path ''link.cs''],
         inodes := (inodes w1)
           [k := \<lparr>content = bytes ''SadRogue.A'', readable = True, writable = True\<rparr>]\<rparr>)"
    by (rule process_ascii[OF e(2) r f _ rw]) simp_all
  show ?thesis
    by (simp add: main_def c cs wk j p1 p2) (simp add: w1_def pair_scenario_def)
qed

text \<open>
  Claim C10 says that a file whose name ends in a case variant such as \<^verbatim>\<open>.CS\<close> is never
  opened and that its content is unchanged by the run. The second half fails when a
  path ending with \<^verbatim>\<open>.cs\<close> names the same file: with \<^verbatim>\<open>link.cs\<close> a link to \<^verbatim>\<open>Real.CS\<close>, the
  run opens \<^verbatim>\<open>link.cs\<close>, and what \<^verbatim>\<open>Real.CS\<close> holds afterwards is the rewritten text.
\<close>

theorem extension_filter_aliased:
  "\<not> endswith (doc_path ''Real.CS'') (str ''.cs'') \<and>
   map_option content (files (pair_scenario 0) (doc_path ''Real.CS'')) =
     Some (bytes ''<see cref=\"SadRogue.A\"/>'') \<and>
   map_option content (files (snd (main script_dir (pair_scenario 0))) (doc_path ''Real.CS'')) =
     Some (bytes ''SadRogue.A'') \<and>
   files (snd (main script_dir (pair_scenario 0))) (doc_path ''Real.CS'') \<noteq>
     files (pair_scenario 0) (doc_path ''Real.CS'')"
proof -
  have m: "main script_dir (pair_scenario 0) =
     (Inr (), (pair_scenario 0)\<lparr>stdout := PROMPT @ [10], stdin := [],
        opened := [doc_path ''link.cs'', doc_path ''link.cs''],
        inodes := (inodes (pair_scenario 0))
           [0 := \<lparr>content = bytes ''SadRogue.A'', readable = True, writable = True\<rparr>]\<rparr>)"
    by (rule main_pair_scenario) simp
  have "\<not> endswith (doc_path ''Real.CS'') (str ''.cs'')"
    by (simp add: endswith_def doc_path_def str_def)
  then show ?thesis
    unfolding m by (simp add: files_def resolve_def pair_scenario_def bytes_def)
qed

text \<open>
  Claim C10, amended. The extension test is case-sensitive: a path that does not end
  with the exact lowercase \<^verbatim>\<open>.cs\<close> (so every path ending in \<^verbatim>\<open>.CS\<close>, \<^verbatim>\<open>.Cs\<close> or \<^verbatim>\<open>.cS\<close>) is
  never given to \<^verbatim>\<open>open\<close> by a run of \<^verbatim>\<open>main\<close>, whatever the answer to the prompt and
  whether or not the run ends in an exception; hence a path is opened and written back
  only if it ends with \<^verbatim>\<open>.cs\<close>. The file at such a path is left as it was provided no
  path of the walk that ends with \<^verbatim>\<open>.cs\<close> names the same file.
\<close>

theorem extension_filter_unaliased:
  assumes "\<not> endswith p (str ''.cs'')"
  shows "count_list (opened (snd (main FILE_PATH w))) p = count_list (opened w) p \<and>
         (unaliased FILE_PATH w p \<longrightarrow> files (snd (main FILE_PATH w)) p = files w p)"
  using main_count[OF assms] main_unaliased by blast

theorem extension_filter_unaliased_witness:
  "\<not> endswith (doc_path ''Real.CS'') (str ''.cs'') \<and>
   unaliased script_dir (pair_scenario 1) (doc_path ''Real.CS'') \<and>
   count_list (opened (snd (main script_dir (pair_scenario 1)))) (doc_path ''Real.CS'') = 0 \<and>
   files (snd (main script_dir (pair_scenario 1))) (doc_path ''Real.CS'') =
     Some \<lparr>content = bytes ''<see cref=\"SadRogue.A\"/>'', readable = True, writable = True\<rparr> \<and>
   map_option content (files (snd (main script_dir (pair_scenario 1))) (doc_path ''link.cs'')) =
     Some (bytes ''SadRogue.A'')"
proof -
  have h: "\<not> endswith (doc_path ''Real.CS'') (str ''.cs'')"
    by (simp add: endswith_def doc_path_def str_def)
  have cs: "CS_PATH script_dir = str ''/repo/GoRogue.Docs/../GoRogue''"
    by (simp add: CS_PATH_def script_dir_def path_join_def str_def)
  have u: "unaliased script_dir (pair_scenario 1) (doc_path ''Real.CS'')"
    by (simp add: unaliased_def walked_def paths_of_def cs same_file_def resolve_def
        pair_scenario_def path_join_def doc_path_def str_def endswith_def)
  have m: "main script_dir (pair_scenario 1) =
     (Inr (), (pair_scenario 1)\<lparr>stdout := PROMPT @ [10], stdin := [],
        opened := [doc_path ''link.cs'', doc_path ''link.cs''],
        inodes := (inodes (pair_scenario 1))
           [1 := \<lparr>content = bytes ''SadRogue.A'', readable = True, writable = True\<rparr>]\<rparr>)"
    by (rule main_pair_scenario) simp
  have l: "map_option content (files (snd (main script_dir (pair_scenario 1))) (doc_path ''link.cs'')) =
     Some (bytes ''SadRogue.A'')"
    unfolding m by (simp add: files_def resolve_def pair_scenario_def doc_path_def str_def)
  have o: "opened (pair_scenario 1) = []"
    and f: "files (pair_scenario 1) (doc_path ''Real.CS'') =
      Some \<lparr>content = bytes ''<see cref=\"SadRogue.A\"/>'', readable = True, writable = True\<rparr>"
    by (simp_all add: pair_scenario_def files_def resolve_def doc_path_def str_def)
  show ?thesis
    using h u l o f extension_filter_unaliased[OF h, of script_dir "pair_scenario 1"] by simp
qed

section \<open>The matcher and the language of a pattern\<close>

text \<open>
  A match found by the backtracking matcher consumes a word of the language, and the
  matcher finds a match wherever a word of the language starts.
\<close>

lemma re_match_sound:
  "re_match r s m0 m1 = Some mo \<Longrightarrow> \<exists>v. s = v @ m_end mo \<and> accepts r v"
proof (induction r s m0 m1 arbitrary: mo rule: re_match.induct)
  case (1 s m0 m1)
  then show ?case by auto
next
  case (3 c r x xs m0 m1)
  then have cx: "cls_match c x" and rec: "re_match r xs m0 m1 = Some mo"
    by (auto split: if_splits)
  from "3.IH"[OF cx rec] obtain v where "xs = v @ m_end mo" "accepts r v" by blast
  then have "x # xs = (x # v) @ m_end mo \<and> accepts (One c # r) (x # v)" using cx by simp
  then show ?case by blast
next
  case (4 c r s m0 m1)
  show ?case
  proof (cases "re_match r s m0 m1")
    case (Some mo')
    then have "re_match r s m0 m1 = Some mo" using "4.prems" by simp
    from "4.IH"(1)[OF this] obtain v where "s = v @ m_end mo" "accepts r v" by blast
    then have "s = v @ m_end mo \<and> accepts (LazyStar c # r) v" by simp
    then show ?thesis by blast
  next
    case None
    with "4.prems" obtain x xs where s: "s = x # xs" and cx: "cls_match c x"
      and rec: "re_match (LazyStar c # r) xs m0 m1 = Some mo"
      by (auto split: list.splits if_splits)
    from "4.IH"(2)[OF None s cx rec] obtain v where "xs = v @ m_end mo" "accepts (LazyStar c # r) v"
      by blast
    then have "s = (x # v) @ m_end mo \<and> accepts (LazyStar c # r) (x # v)" using cx s by simp
    then show ?thesis by blast
  qed
next
  case (6 c r x xs m0 m1)
  then have cx: "cls_match c x" and rec: "re_match (LazyStar c # r) xs m0 m1 = Some mo"
    by (auto split: if_splits)
  from "6.IH"[OF cx rec] obtain v where "xs = v @ m_end mo" "accepts (LazyStar c # r) v" by blast
  then have "x # xs = (x # v) @ m_end mo \<and> accepts (LazyPlus c # r) (x # v)" using cx by simp
  then show ?case by blast
next
  case (7 r s m0 m1)
  then show ?case by simp
next
  case (8 r s m0 m1)
  then show ?case by simp
qed simp_all

lemma re_match_complete:
  "accepts r v \<Longrightarrow> re_match r (v @ t) m0 m1 \<noteq> None"
proof (induction r v arbitrary: m0 m1 rule: accepts.induct)
  case (4 c r s)
  show ?case
  proof (cases "re_match r (s @ t) m0 m1")
    case (Some mo)
    then show ?thesis by simp
  next
    case None
    then have "\<not> accepts r s" using "4.IH"(1)[of m0 m1] by blast
    with "4.prems" obtain x xs where s: "s = x # xs" and cx: "cls_match c x"
      and a: "accepts (LazyStar c # r) xs"
      by (cases s) auto
    have "re_match (LazyStar c # r) (xs @ t) m0 m1 \<noteq> None"
      using "4.IH"(2)[OF s a] .
    then show ?thesis using None s cx by simp
  qed
qed auto


lemma contains_match_iff:
  "contains_match r t \<longleftrightarrow> (\<exists>pre v post. t = pre @ v @ post \<and> accepts r v)"
proof
  assume "contains_match r t"
  then obtain u v where "suffix u t" "prefix v u" "accepts r v"
    by (auto simp: contains_match_def list_ex_iff in_set_suffixes in_set_prefixes)
  then obtain pre post where "t = pre @ u" "u = v @ post"
    by (auto simp: suffix_def prefix_def)
  with \<open>accepts r v\<close> have "t = pre @ v @ post \<and> accepts r v" by simp
  then show "\<exists>pre v post. t = pre @ v @ post \<and> accepts r v" by blast
next
  assume "\<exists>pre v post. t = pre @ v @ post \<and> accepts r v"
  then obtain pre v post where t: "t = pre @ v @ post" and a: "accepts r v" by blast
  have "v @ post \<in> set (suffixes t)" "v \<in> set (prefixes (v @ post))"
    using t by (simp_all add: in_set_suffixes in_set_prefixes suffix_def)
  with a show "contains_match r t"
    unfolding contains_match_def list_ex_iff by blast
qed

lemma match_some_iff:
  "(\<exists>u. suffix u t \<and> re_match r u None None \<noteq> None) \<longleftrightarrow> contains_match r t"
proof
  assume "\<exists>u. suffix u t \<and> re_match r u None None \<noteq> None"
  then obtain u mo where u: "suffix u t" and m: "re_match r u None None = Some mo" by auto
  from re_match_sound[OF m] obtain v where "u = v @ m_end mo" "accepts r v" by blast
  moreover from u obtain pre where "t = pre @ u" by (auto simp: suffix_def)
  ultimately have "t = pre @ v @ m_end mo \<and> accepts r v" by simp
  then show "contains_match r t" unfolding contains_match_iff by blast
next
  assume "contains_match r t"
  then obtain pre v post where t: "t = pre @ v @ post" and a: "accepts r v"
    unfolding contains_match_iff by blast
  have "suffix (v @ post) t" using t by (simp add: suffix_def)
  moreover have "re_match r (v @ post) None None \<noteq> None" by (rule re_match_complete[OF a])
  ultimately show "\<exists>u. suffix u t \<and> re_match r u None None \<noteq> None" by blast
qed

lemma re_sub_no_match:
  "\<not> contains_match r t \<Longrightarrow> re_sub r repl t = t"
proof (induction t)
  case Nil
  have "re_match r [] None None = None"
    using Nil match_some_iff[of "[]" r] by auto
  then show ?case by simp
next
  case (Cons c cs)
  have none: "re_match r (c # cs) None None = None"
    using Cons.prems match_some_iff[of "c # cs" r] by auto
  have "\<not> contains_match r cs"
  proof
    assume "contains_match r cs"
    then obtain u where "suffix u cs" "re_match r u None None \<noteq> None"
      using match_some_iff[of cs r] by blast
    then have "suffix u (c # cs) \<and> re_match r u None None \<noteq> None"
      by (simp add: suffix_Cons)
    then show False using Cons.prems match_some_iff[of "c # cs" r] by blast
  qed
  with Cons.IH none show ?case by simp
qed

lemma head_match_shrinks:
  assumes "re_match (One c # r) s None None = Some mo"
  shows "length (emit (group1 mo)) + length (m_end mo) < length s"
proof (cases s)
  case Nil
  with assms show ?thesis by simp
next
  case (Cons x xs)
  with assms have "re_match r xs None None = Some mo" by (auto split: if_splits)
  from re_match_bound[OF this, of "length xs"]
  show ?thesis using Cons by simp
qed

lemma re_sub_shrinks:
  "contains_match (One c # r) t \<Longrightarrow> length (re_sub (One c # r) convert_to_match t) < length t"
proof (induction t)
  case Nil
  then have "re_match (One c # r) [] None None \<noteq> None"
    using match_some_iff[of "[]" "One c # r"] by auto
  then show ?case by simp
next
  case (Cons x xs)
  show ?case
  proof (cases "re_match (One c # r) (x # xs) None None")
    case (Some mo)
    from head_match_shrinks[OF Some]
    have b: "length (emit (group1 mo)) + length (m_end mo) < length (x # xs)" .
    then have lt: "length (m_end mo) < length (x # xs)" by simp
    have "length (re_sub (One c # r) convert_to_match (m_end mo)) \<le> length (m_end mo)"
      by (rule re_sub_length)
    moreover have "emit (convert_to_match mo) = emit (group1 mo)"
      by (simp add: convert_to_match_def)
    ultimately show ?thesis using b lt Some by simp
  next
    case None
    from Cons.prems obtain u where u: "suffix u (x # xs)" "re_match (One c # r) u None None \<noteq> None"
      using match_some_iff[of "x # xs" "One c # r"] by blast
    with None have "suffix u xs" by (auto simp: suffix_Cons)
    with u have "contains_match (One c # r) xs" using match_some_iff[of xs "One c # r"] by blast
    from Cons.IH[OF this] None show ?thesis by simp
  qed
qed

lemma CREF_REGEXES_heads:
  "\<exists>r1 r2. CREF_REGEXES = [One (Lit 60) # r1, One (Lit 60) # r2]"
  by (simp add: CREF_REGEXES_def lits_def)

lemma rewrite_fixed_iff:
  "rewrite u = u \<longleftrightarrow> (\<forall>r \<in> set CREF_REGEXES. \<not> contains_match r u)"
proof -
  obtain r1 r2 where R: "CREF_REGEXES = [One (Lit 60) # r1, One (Lit 60) # r2]"
    using CREF_REGEXES_heads by blast
  let ?p1 = "One (Lit 60) # r1" and ?p2 = "One (Lit 60) # r2"
  have rw: "rewrite u = re_sub ?p2 convert_to_match (re_sub ?p1 convert_to_match u)"
    by (simp add: rewrite_def R)
  show ?thesis
  proof
    assume "\<forall>r \<in> set CREF_REGEXES. \<not> contains_match r u"
    then have "\<not> contains_match ?p1 u" "\<not> contains_match ?p2 u" by (simp_all add: R)
    then show "rewrite u = u" by (simp add: rw re_sub_no_match)
  next
    assume fx: "rewrite u = u"
    have n1: "\<not> contains_match ?p1 u"
    proof
      assume "contains_match ?p1 u"
      then have "length (re_sub ?p1 convert_to_match u) < length u" by (rule re_sub_shrinks)
      moreover have "length (rewrite u) \<le> length (re_sub ?p1 convert_to_match u)"
        unfolding rw by (rule re_sub_length)
      ultimately show False using fx by simp
    qed
    then have s1: "re_sub ?p1 convert_to_match u = u" by (rule re_sub_no_match)
    have n2: "\<not> contains_match ?p2 u"
    proof
      assume "contains_match ?p2 u"
      then have "length (re_sub ?p2 convert_to_match u) < length u" by (rule re_sub_shrinks)
      then show False using fx rw s1 by simp
    qed
    from n1 n2 show "\<forall>r \<in> set CREF_REGEXES. \<not> contains_match r u" by (simp add: R)
  qed
qed

text \<open>
  Claim C3. A text that contains no substring matching either pattern is returned
  unchanged by \<open>rewrite\<close>.
\<close>

theorem rewrite_identity_without_match:
  "(\<forall>r \<in> set CREF_REGEXES. \<not> contains_match r t) \<Longrightarrow> rewrite t = t"
  by (simp add: rewrite_fixed_iff)

theorem rewrite_identity_without_match_witness:
  "\<not> contains_match (CREF_REGEXES ! 0) (str ''<see cref=\"System.String\"/>'') \<and>
   \<not> contains_match (CREF_REGEXES ! 1) (str ''<see cref=\"System.String\"/>'') \<and>
   rewrite (str ''<see cref=\"System.String\"/>'') = str ''<see cref=\"System.String\"/>''"
proof -
  have h0: "\<not> contains_match (CREF_REGEXES ! 0) (str ''<see cref=\"System.String\"/>'')"
    and h1: "\<not> contains_match (CREF_REGEXES ! 1) (str ''<see cref=\"System.String\"/>'')"
    by (simp_all add: CREF_REGEXES_def contains_match_def lits_def str_def is_space_def)
  have h: "\<forall>r \<in> set CREF_REGEXES. \<not> contains_match r (str ''<see cref=\"System.String\"/>'')"
    using h0 h1 by (simp add: CREF_REGEXES_def)
  show ?thesis using h0 h1 rewrite_identity_without_match[OF h] by blast
qed

section \<open>Tag-structured text\<close>

lemma CREF_REGEXES_cref: "CREF_REGEXES = [cref ''SadRogue'', cref ''Troschuetz'']"
  by (simp add: CREF_REGEXES_def cref_def)

lemma str_simps: "str [] = []" "str (c # s) = of_char c # str s" "str (a @ b) = str a @ str b"
  by (simp_all add: str_def)

lemma lits_simps: "lits [] = []" "lits (c # s) = One (Lit (of_char c)) # lits s"
  "lits (a @ b) = lits a @ lits b"
  by (simp_all add: lits_def)

lemma lits_match: "re_match (lits w @ r) (str w @ t) m0 m1 = re_match r t m0 m1"
  by (induction w) (simp_all add: str_simps lits_simps)

lemma lits_mismatch: "\<not> prefix (str w) s \<Longrightarrow> re_match (lits w @ r) s m0 m1 = None"
proof (induction w arbitrary: s)
  case Nil
  then show ?case by (simp add: str_simps)
next
  case (Cons c w)
  show ?case
  proof (cases s)
    case Nil
    then show ?thesis by (simp add: lits_simps)
  next
    case (Cons x xs)
    show ?thesis
    proof (cases "x = of_char c")
      case True
      with Cons.prems Cons have "\<not> prefix (str w) xs" by (simp add: str_simps)
      from Cons.IH[OF this] True Cons show ?thesis by (simp add: lits_simps)
    next
      case False
      with Cons show ?thesis by (simp add: lits_simps)
    qed
  qed
qed

lemma lazy_space:
  "spaces ws \<Longrightarrow> \<not> is_space a \<Longrightarrow>
   re_match (LazyStar Space # One (Lit a) # r) (ws @ a # t) m0 m1 = re_match r t m0 m1"
proof (induction ws)
  case Nil
  then show ?case by (simp split: option.split)
next
  case (Cons w ws)
  then have "is_space w" "spaces ws" by (simp_all add: spaces_def)
  with Cons have "w \<noteq> a" by auto
  with Cons \<open>is_space w\<close> \<open>spaces ws\<close> show ?case by simp
qed

lemma lazy_dot:
  "list_all (\<lambda>c. c \<noteq> 34 \<and> c \<noteq> 10) n \<Longrightarrow> re_match r t m0 (Some (34 # t)) = Some mo \<Longrightarrow>
   re_match (LazyStar Dot # Close # One (Lit 34) # r) (n @ 34 # t) m0 m1 = Some mo"
  by (induction n) simp_all


lemma not_space_lits:
  "\<not> is_space 115" "\<not> is_space 99" "\<not> is_space 61" "\<not> is_space 34" "\<not> is_space 47"
  "\<not> is_space 62" "\<not> is_space 60"
  by (simp_all add: is_space_def)

lemma head_match:
  assumes "spaces w1" "spaces w2" "spaces w3" "spaces w4"
  shows "re_match (cref ns) (see_tag w1 w2 w3 w4 q w5 w6 @ t) None None =
         re_match (body ns) (q @ 34 # w5 @ 47 # w6 @ 62 # t)
           (Some (q @ 34 # w5 @ 47 # w6 @ 62 # t)) None"
proof -
  have "re_match (cref ns) (see_tag w1 w2 w3 w4 q w5 w6 @ t) None None =
        re_match (LazyStar Space # One (Lit 115) # One (Lit 101) # One (Lit 101) #
                  LazyStar Space # One (Lit 99) # One (Lit 114) # One (Lit 101) # One (Lit 102) #
                  LazyStar Space # One (Lit 61) # LazyStar Space # One (Lit 34) # Open # body ns)
          (w1 @ 115 # 101 # 101 # w2 @ 99 # 114 # 101 # 102 # w3 @ 61 # w4 @ 34 #
             q @ 34 # w5 @ 47 # w6 @ 62 # t) None None"
    by (simp add: cref_def see_tag_def body_def lits_simps str_simps del: re_match.simps(4))
  also have "\<dots> = re_match (LazyStar Space # One (Lit 99) # One (Lit 114) # One (Lit 101) # One (Lit 102) #
                  LazyStar Space # One (Lit 61) # LazyStar Space # One (Lit 34) # Open # body ns)
          (w2 @ 99 # 114 # 101 # 102 # w3 @ 61 # w4 @ 34 #
             q @ 34 # w5 @ 47 # w6 @ 62 # t) None None"
    by (simp add: lazy_space[OF assms(1)] not_space_lits del: re_match.simps(4))
  also have "\<dots> = re_match (LazyStar Space # One (Lit 61) # LazyStar Space # One (Lit 34) # Open # body ns)
          (w3 @ 61 # w4 @ 34 # q @ 34 # w5 @ 47 # w6 @ 62 # t) None None"
    by (simp add: lazy_space[OF assms(2)] not_space_lits del: re_match.simps(4))
  also have "\<dots> = re_match (LazyStar Space # One (Lit 34) # Open # body ns)
          (w4 @ 34 # q @ 34 # w5 @ 47 # w6 @ 62 # t) None None"
    by (simp add: lazy_space[OF assms(3)] not_space_lits del: re_match.simps(4))
  also have "\<dots> = re_match (Open # body ns) (q @ 34 # w5 @ 47 # w6 @ 62 # t) None None"
    by (simp add: lazy_space[OF assms(4)] not_space_lits del: re_match.simps(4))
  finally show ?thesis by simp
qed

lemma tail_match:
  assumes "spaces w5" "spaces w6"
  shows "re_match [LazyStar Space, One (Lit 47), LazyStar Space, One (Lit 62)]
           (w5 @ 47 # w6 @ 62 # t) m0 m1 = Some (Match (span m0 m1) t)"
  by (simp add: lazy_space[OF assms(1)] lazy_space[OF assms(2)] not_space_lits
      del: re_match.simps(4))

lemma body_match:
  assumes "spaces w5" "spaces w6" "name_ok n"
  shows "re_match (body ns) (str ns @ str ''.'' @ n @ 34 # w5 @ 47 # w6 @ 62 # t)
           (Some (str ns @ str ''.'' @ n @ 34 # w5 @ 47 # w6 @ 62 # t)) None =
         Some (Match (Some (str ns @ str ''.'' @ n)) t)"
proof -
  let ?m0 = "Some (str ns @ str ''.'' @ n @ 34 # w5 @ 47 # w6 @ 62 # t)"
  let ?rest = "w5 @ 47 # w6 @ 62 # t"
  let ?tail = "[LazyStar Space, One (Lit 47), LazyStar Space, One (Lit 62)]"
  from assms(3) obtain x n' where n: "n = x # n'" and x: "x \<noteq> 10"
    and n': "list_all (\<lambda>c. c \<noteq> 34 \<and> c \<noteq> 10) n'"
    by (cases n) (auto simp: name_ok_def list_all_iff)
  have t: "re_match ?tail ?rest ?m0 (Some (34 # ?rest)) =
        Some (Match (span ?m0 (Some (34 # ?rest))) t)"
    by (rule tail_match[OF assms(1,2)])
  have d: "re_match (LazyStar Dot # Close # One (Lit 34) # ?tail) (n' @ 34 # ?rest) ?m0 None =
        Some (Match (span ?m0 (Some (34 # ?rest))) t)"
    by (rule lazy_dot[OF n' t])
  have "re_match (body ns) (str ns @ str ''.'' @ n @ 34 # ?rest) ?m0 None =
        re_match (LazyPlus Dot # Close # One (Lit 34) # ?tail) (n @ 34 # ?rest) ?m0 None"
    unfolding body_def by (simp only: lits_match append_assoc)
  also have "\<dots> = Some (Match (span ?m0 (Some (34 # ?rest))) t)"
    using d x by (simp add: n del: re_match.simps(4))
  also have "span ?m0 (Some (34 # ?rest)) = Some (str ns @ str ''.'' @ n)"
    by simp
  finally show ?thesis .
qed

lemma tag_match:
  assumes "spaces w1" "spaces w2" "spaces w3" "spaces w4" "spaces w5" "spaces w6" "name_ok n"
  shows "re_match (cref ns) (see_tag w1 w2 w3 w4 (str ns @ str ''.'' @ n) w5 w6 @ t) None None =
         Some (Match (Some (str ns @ str ''.'' @ n)) t)"
  using head_match[OF assms(1-4), of ns "str ns @ str ''.'' @ n" w5 w6 t]
    body_match[OF assms(5-7), of ns t]
  by simp

lemma tag_mismatch:
  assumes "spaces w1" "spaces w2" "spaces w3" "spaces w4"
    and "\<not> prefix (str ns @ str ''.'') q" and "34 \<notin> set (str ns)"
  shows "re_match (cref ns) (see_tag w1 w2 w3 w4 q w5 w6 @ t) None None = None"
proof -
  have "\<not> prefix (str (ns @ ''.'')) (q @ 34 # w5 @ 47 # w6 @ 62 # t)"
  proof
    assume p: "prefix (str (ns @ ''.'')) (q @ 34 # w5 @ 47 # w6 @ 62 # t)"
    then have "prefix (str (ns @ ''.'')) q \<or> prefix q (str (ns @ ''.''))"
      by (metis prefix_append prefix_order.dual_order.refl prefix_same_cases)
    with assms(5) have pq: "prefix q (str (ns @ ''.''))" "q \<noteq> str (ns @ ''.'')"
      by (auto simp: str_simps)
    then obtain z zs where "str (ns @ ''.'') = q @ z # zs"
      by (metis append_Nil2 neq_Nil_conv prefix_def)
    with p have "z = 34" by (auto simp: prefix_def)
    with \<open>str (ns @ ''.'') = q @ z # zs\<close> have "34 \<in> set (str (ns @ ''.''))" by simp
    with assms(6) show False by (simp add: str_simps)
  qed
  then have "re_match (lits (ns @ ''.'') @ r) (q @ 34 # w5 @ 47 # w6 @ 62 # t) m0 m1 = None"
    for r m0 m1 by (rule lits_mismatch)
  then show ?thesis
    unfolding head_match[OF assms(1-4)] body_def by (simp add: lits_simps)
qed


lemma cref_head: "\<exists>r. cref ns = One (Lit 60) # r"
  by (simp add: cref_def lits_simps)

lemma re_sub_skip:
  "a \<notin> set u \<Longrightarrow> re_sub (One (Lit a) # r) repl (u @ t) = u @ re_sub (One (Lit a) # r) repl t"
  by (induction u) auto

lemma cref_skip: "60 \<notin> set u \<Longrightarrow> re_sub (cref ns) repl (u @ t) = u @ re_sub (cref ns) repl t"
  using cref_head[of ns] re_sub_skip[of 60 u] by auto

lemma re_sub_at_match:
  assumes "re_match r s None None = Some (Match (Some g) t)" and "length t < length s"
  shows "re_sub r convert_to_match s = g @ re_sub r convert_to_match t"
proof (cases s)
  case Nil
  with assms(2) show ?thesis by simp
next
  case (Cons c cs)
  have "emit (convert_to_match (Match (Some g) t)) = g"
    by (simp add: emit_def convert_to_match_def)
  with assms Cons show ?thesis by simp
qed

lemma see_tag_Cons: "see_tag w1 w2 w3 w4 q w5 w6 = 60 # tag_rest w1 w2 w3 w4 q w5 w6"
  by (simp add: see_tag_def tag_rest_def str_simps)

lemma spaces_no_lt: "spaces ws \<Longrightarrow> 60 \<notin> set ws"
  using not_space_lits(7) by (auto simp: spaces_def list_all_iff)

lemma tag_rest_no_lt:
  assumes "spaces w1" "spaces w2" "spaces w3" "spaces w4" "spaces w5" "spaces w6" "60 \<notin> set q"
  shows "60 \<notin> set (tag_rest w1 w2 w3 w4 q w5 w6)"
  using assms(7) assms(1-6)[THEN spaces_no_lt] by (simp add: tag_rest_def str_simps)

lemma pass_tag_hit:
  assumes "spaces w1" "spaces w2" "spaces w3" "spaces w4" "spaces w5" "spaces w6" "name_ok n"
  shows "re_sub (cref ns) convert_to_match (see_tag w1 w2 w3 w4 (str ns @ str ''.'' @ n) w5 w6 @ t) =
         (str ns @ str ''.'' @ n) @ re_sub (cref ns) convert_to_match t"
proof (rule re_sub_at_match)
  show "re_match (cref ns) (see_tag w1 w2 w3 w4 (str ns @ str ''.'' @ n) w5 w6 @ t) None None =
        Some (Match (Some (str ns @ str ''.'' @ n)) t)"
    by (rule tag_match[OF assms])
  show "length t < length (see_tag w1 w2 w3 w4 (str ns @ str ''.'' @ n) w5 w6 @ t)"
    by (simp add: see_tag_Cons)
qed

lemma pass_tag_miss:
  assumes "spaces w1" "spaces w2" "spaces w3" "spaces w4" "spaces w5" "spaces w6"
    and "\<not> prefix (str ns @ str ''.'') q" and "34 \<notin> set (str ns)" and "60 \<notin> set q"
  shows "re_sub (cref ns) repl (see_tag w1 w2 w3 w4 q w5 w6 @ t) =
         see_tag w1 w2 w3 w4 q w5 w6 @ re_sub (cref ns) repl t"
proof -
  have none: "re_match (cref ns) (60 # tag_rest w1 w2 w3 w4 q w5 w6 @ t) None None = None"
    using tag_mismatch[OF assms(1-4) assms(7,8), of w5 w6 t] by (simp add: see_tag_Cons)
  have "re_sub (cref ns) repl (60 # tag_rest w1 w2 w3 w4 q w5 w6 @ t) =
        60 # re_sub (cref ns) repl (tag_rest w1 w2 w3 w4 q w5 w6 @ t)"
    using none by simp
  also have "re_sub (cref ns) repl (tag_rest w1 w2 w3 w4 q w5 w6 @ t) =
        tag_rest w1 w2 w3 w4 q w5 w6 @ re_sub (cref ns) repl t"
    by (rule cref_skip[OF tag_rest_no_lt[OF assms(1-6) assms(9)]])
  finally show ?thesis by (simp add: see_tag_Cons)
qed

lemma ns_facts:
  assumes "ns \<in> {''SadRogue'', ''Troschuetz''}"
  shows "34 \<notin> set (str ns)" and "60 \<notin> set (str ns @ str ''.'')"
  using assms by (auto simp: str_def)

lemma qualifier_name:
  assumes "ns \<in> {''SadRogue'', ''Troschuetz''}" and "qualifier_ok q"
    and "prefix (str ns @ str ''.'') q"
  shows "\<exists>n. q = str ns @ str ''.'' @ n \<and> name_ok n"
proof -
  from assms(1) consider "ns = ''SadRogue''" | "ns = ''Troschuetz''" by auto
  then show ?thesis
  proof cases
    case 1
    with assms(3) have p: "prefix (str ''SadRogue.'') q" by (simp add: str_def)
    then obtain n where q: "q = str ''SadRogue.'' @ n" by (auto simp: prefix_def)
    have "length (str ''SadRogue.'') = 9" by (simp add: str_def)
    with q have "drop 9 q = n" by simp
    with assms(2) p have "name_ok n" by (simp add: qualifier_ok_def)
    with q 1 show ?thesis by (simp add: str_def)
  next
    case 2
    with assms(3) have p: "prefix (str ''Troschuetz.'') q" by (simp add: str_def)
    then obtain n where q: "q = str ''Troschuetz.'' @ n" by (auto simp: prefix_def)
    then have np: "\<not> prefix (str ''SadRogue.'') q" by (simp add: str_def)
    have "length (str ''Troschuetz.'') = 11" by (simp add: str_def)
    with q have "drop 11 q = n" by simp
    with assms(2) p np have "name_ok n" by (simp add: qualifier_ok_def)
    with q 2 show ?thesis by (simp add: str_def)
  qed
qed

lemma viable_Nil: "viable r []"
  by (induction r "[] :: ustr" rule: viable.induct) simp_all

lemma not_viable_no_match:
  "\<not> viable r s \<Longrightarrow> re_match r (s @ t) m0 m1 = None"
proof (induction r s arbitrary: m0 m1 rule: viable.induct)
  case (4 c r s)
  then have nr: "\<not> viable r s" by simp
  then have none: "re_match r (s @ t) m0 m1 = None" by (rule "4.IH"(1))
  from nr obtain x xs where s: "s = x # xs" using viable_Nil[of r] by (cases s) auto
  show ?case
  proof (cases "cls_match c x")
    case True
    with "4.prems" s have "\<not> viable (LazyStar c # r) xs" by simp
    from "4.IH"(2)[OF s this] none s True show ?thesis by simp
  next
    case False
    with none s show ?thesis by simp
  qed
qed auto

lemma re_sub_dead:
  assumes "\<And>v. suffix v u \<Longrightarrow> v \<noteq> [] \<Longrightarrow> \<not> viable r v"
  shows "re_sub r repl (u @ t) = u @ re_sub r repl t"
  using assms
proof (induction u)
  case Nil
  show ?case by simp
next
  case (Cons x xs)
  have "\<not> viable r (x # xs)" by (rule Cons.prems) simp_all
  then have none: "re_match r ((x # xs) @ t) None None = None" by (rule not_viable_no_match)
  have "re_sub r repl (xs @ t) = xs @ re_sub r repl t"
  proof (rule Cons.IH)
    fix v assume "suffix v xs" "v \<noteq> []"
    then show "\<not> viable r v" using Cons.prems[of v] by (simp add: suffix_Cons)
  qed
  with none show ?case by simp
qed

lemma plain_skip:
  assumes "ns \<in> {''SadRogue'', ''Troschuetz''}" and "plain_ok u"
  shows "re_sub (cref ns) repl (u @ t) = u @ re_sub (cref ns) repl t"
proof (rule re_sub_dead)
  fix v assume v: "suffix v u" "v \<noteq> []"
  then have "\<not> can_start v"
    using assms(2) by (auto simp: plain_ok_def list_ex_iff in_set_suffixes)
  with v(2) assms(1) show "\<not> viable (cref ns) v"
    by (auto simp: can_start_def CREF_REGEXES_cref)
qed

lemma no_lt_plain: "60 \<notin> set u \<Longrightarrow> plain_ok u"
proof -
  assume u: "60 \<notin> set u"
  have "\<not> can_start v" if "suffix v u" for v
  proof (cases v)
    case Nil
    then show ?thesis by (simp add: can_start_def)
  next
    case (Cons x xs)
    with that u have "x \<noteq> 60" by (auto simp: suffix_def)
    with Cons show ?thesis
      by (simp add: can_start_def CREF_REGEXES_def lits_simps)
  qed
  then show ?thesis by (auto simp: plain_ok_def list_ex_iff in_set_suffixes)
qed

lemma wf_pass_piece: "wf_piece p \<Longrightarrow> wf_piece (pass_piece ns p)"
  by (cases p) (auto simp: qualifier_ok_def no_lt_plain)

lemma pass_pieces:
  assumes "ns \<in> {''SadRogue'', ''Troschuetz''}"
  shows "list_all wf_piece ps \<Longrightarrow>
         re_sub (cref ns) convert_to_match (render ps) = render (map (pass_piece ns) ps)"
proof (induction ps)
  case Nil
  have "re_sub (cref ns) convert_to_match [] = []"
    using cref_head[of ns] by auto
  then show ?case by (simp add: render_def)
next
  case (Cons p ps)
  then have wf: "wf_piece p" and IH: "re_sub (cref ns) convert_to_match (render ps) =
      render (map (pass_piece ns) ps)" by simp_all
  have r: "render (p # ps) = render_piece p @ render ps" for p ps by (simp add: render_def)
  show ?case
  proof (cases p)
    case (Plain u)
    with wf have "plain_ok u" by simp
    from plain_skip[OF assms this] IH Plain show ?thesis by (simp add: r)
  next
    case (SeeTag w1 w2 w3 w4 q w5 w6)
    with wf have sp: "spaces w1" "spaces w2" "spaces w3" "spaces w4" "spaces w5" "spaces w6"
      and qok: "qualifier_ok q" by simp_all
    show ?thesis
    proof (cases "prefix (str ns @ str ''.'') q")
      case True
      from qualifier_name[OF assms qok True] obtain n
        where q: "q = str ns @ str ''.'' @ n" and n: "name_ok n" by blast
      from pass_tag_hit[OF sp n, of ns "render ps"] IH True SeeTag q
      show ?thesis by (simp add: r)
    next
      case False
      from qok have "60 \<notin> set q" by (simp add: qualifier_ok_def)
      from pass_tag_miss[OF sp False ns_facts(1)[OF assms] this, of convert_to_match "render ps"]
        IH False SeeTag
      show ?thesis by (simp add: r)
    qed
  qed
qed

lemma rewrite_pieces:
  assumes "list_all wf_piece ps"
  shows "rewrite (render ps) =
         render (map (pass_piece ''Troschuetz'') (map (pass_piece ''SadRogue'') ps))"
proof -
  have wf1: "list_all wf_piece (map (pass_piece ''SadRogue'') ps)"
    using assms by (simp add: list_all_iff wf_pass_piece)
  show ?thesis
    by (simp add: rewrite_def CREF_REGEXES_cref pass_pieces[OF _ assms] pass_pieces[OF _ wf1])
qed

lemma two_passes_piece:
  "render_piece (pass_piece ''Troschuetz'' (pass_piece ''SadRogue'' p)) = rewritten_piece p"
  by (cases p) (auto simp: allow_listed_def str_def)

lemma two_passes_twice:
  "pass_piece ''Troschuetz'' (pass_piece ''SadRogue''
     (pass_piece ''Troschuetz'' (pass_piece ''SadRogue'' p))) =
   pass_piece ''Troschuetz'' (pass_piece ''SadRogue'' p)"
  by (cases p) auto

lemma rewrite_structured:
  assumes "list_all wf_piece ps"
  shows "rewrite (render ps) = concat (map rewritten_piece ps) \<and>
         rewrite (rewrite (render ps)) = rewrite (render ps)"
proof -
  let ?f = "\<lambda>p. pass_piece ''Troschuetz'' (pass_piece ''SadRogue'' p)"
  have 1: "rewrite (render ps) = render (map ?f ps)"
    using rewrite_pieces[OF assms] by (simp add: comp_def)
  have wf: "list_all wf_piece (map ?f ps)"
    using assms by (simp add: list_all_iff wf_pass_piece)
  have 2: "rewrite (render (map ?f ps)) = render (map ?f (map ?f ps))"
    using rewrite_pieces[OF wf] by (simp add: comp_def)
  have 3: "map ?f (map ?f ps) = map ?f ps"
    by (simp add: two_passes_twice)
  have 4: "render (map ?f ps) = concat (map rewritten_piece ps)"
    by (simp add: render_def comp_def two_passes_piece)
  have "rewrite (rewrite (render ps)) = rewrite (render (map ?f ps))" by (simp only: 1)
  also have "\<dots> = render (map ?f (map ?f ps))" by (rule 2)
  also have "\<dots> = render (map ?f ps)" by (simp only: 3)
  also have "\<dots> = rewrite (render ps)" by (simp only: 1)
  finally have 5: "rewrite (rewrite (render ps)) = rewrite (render ps)" .
  from 1 4 have "rewrite (render ps) = concat (map rewritten_piece ps)" by (rule trans)
  with 5 show ?thesis by (rule conjI[rotated])
qed

lemma wf_sample: "list_all wf_piece sample"
  by (simp add: sample_def plain_ok_def can_start_def CREF_REGEXES_def lits_def str_def
      is_space_def spaces_def qualifier_ok_def name_ok_def)

section \<open>Where the substitution goes beyond one tag\<close>

text \<open>
  Claim C1 says that every well-formed self-closing tag \<^verbatim>\<open><see cref="SadRogue.Foo.Bar"/>\<close>
  occurring in the text is replaced by exactly its qualifier. The lazy \<^verbatim>\<open>.+?\<close> of the
  pattern also consumes quotes, so a match that starts at an earlier
  \<^verbatim>\<open><see cref="SadRogue.A">\<close> runs on to the end of the next self-closing tag of the same
  line: in \<^verbatim>\<open><see cref="SadRogue.A">a</see> <see cref="SadRogue.B"/>\<close> the second tag is
  not replaced by \<^verbatim>\<open>SadRogue.B\<close>; its opening \<^verbatim>\<open><see cref="\<close> stays in the output.
\<close>

theorem rewrite_swallows_following_tag:
  "rewrite (str ''<see cref=\"SadRogue.A\">a</see> <see cref=\"SadRogue.B\"/>'') =
   str ''SadRogue.A\">a</see> <see cref=\"SadRogue.B''"
  by (simp add: eval_rewrite)

text \<open>
  Claim C2 says that a tag of another namespace, such as \<^verbatim>\<open><see cref="System.String"/>\<close>,
  is left unchanged byte for byte. For the same reason, in
  \<^verbatim>\<open><see cref="SadRogue.A">a</see> <see cref="System.String"/>\<close> the System tag loses its
  closing \<^verbatim>\<open>"/>\<close>.
\<close>

theorem rewrite_damages_other_namespace:
  "rewrite (str ''<see cref=\"SadRogue.A\">a</see> <see cref=\"System.String\"/>'') =
   str ''SadRogue.A\">a</see> <see cref=\"System.String''"
  by (simp add: eval_rewrite)

section \<open>Idempotence\<close>

text \<open>
  Claim C4 says that \<open>rewrite\<close> is idempotent on every text. It is not: a replacement can
  complete a tag that was not one before. From \<^verbatim>\<open><see cref="<see cref="SadRogue.A"/>"/>\<close>
  the first application makes \<^verbatim>\<open><see cref="SadRogue.A"/>\<close> and the second \<^verbatim>\<open>SadRogue.A\<close>.
\<close>

theorem rewrite_not_idempotent:
  "rewrite (rewrite (str ''<see cref=\"<see cref=\"SadRogue.A\"/>\"/>'')) \<noteq>
   rewrite (str ''<see cref=\"<see cref=\"SadRogue.A\"/>\"/>'')"
  by (simp add: eval_rewrite)

text \<open>
  Claim C4, amended. Applying \<open>rewrite\<close> twice gives the same as applying it once exactly
  when the result of the first application contains no substring matching either
  pattern. This is so for every tag-structured text, made of plain runs inside which no
  match can start and of well-formed self-closing tags: there \<open>rewrite\<close> replaces each
  allow-listed tag by its qualifier, keeps everything else, and a second application
  changes nothing.
\<close>

theorem rewrite_idempotent_when:
  "(rewrite (rewrite t) = rewrite t \<longleftrightarrow>
      (\<forall>r \<in> set CREF_REGEXES. \<not> contains_match r (rewrite t))) \<and>
   (list_all wf_piece ps \<longrightarrow>
      rewrite (render ps) = concat (map rewritten_piece ps) \<and>
      rewrite (rewrite (render ps)) = rewrite (render ps))"
  using rewrite_fixed_iff[of "rewrite t"] rewrite_structured[of ps] by blast

theorem rewrite_idempotent_when_witness:
  "list_all wf_piece sample \<and>
   rewrite (render sample) = concat (map rewritten_piece sample) \<and>
   rewrite (rewrite (render sample)) = rewrite (render sample) \<and>
   \<not> contains_match (CREF_REGEXES ! 0) (rewrite (render sample)) \<and>
   \<not> contains_match (CREF_REGEXES ! 1) (rewrite (render sample))"
proof -
  have "CREF_REGEXES ! 0 \<in> set CREF_REGEXES" "CREF_REGEXES ! 1 \<in> set CREF_REGEXES"
    by (simp_all add: CREF_REGEXES_def)
  then show ?thesis
    using wf_sample rewrite_idempotent_when[of "render sample" sample] by blast
qed

end
